theory Spec2Isabelle
  imports Main "HOL-Library.AList" "HOL-Library.Multiset"
begin

section \<open>Python values used by the yarn runner\<close>

text \<open>
  The runner works on parsed JSON. A field read with \<^verbatim>\<open>d.get(key)\<close> is an
  \<open>option\<close>: \<open>None\<close> is Python's \<^verbatim>\<open>None\<close> (key absent, or JSON null). A field read
  with a default, \<^verbatim>\<open>d.get(key, default)\<close>, is a \<open>field\<close>: the default replaces an
  absent key only, a JSON null is returned as \<^verbatim>\<open>None\<close>, and the code then raises as soon
  as it calls a method on it (\<^verbatim>\<open>AttributeError\<close>) or iterates over it (\<^verbatim>\<open>TypeError\<close>).
  A \<^verbatim>\<open>dict\<close> whose iteration order is observed is an association list in insertion
  order; \<^verbatim>\<open>d[k] = v\<close> is \<open>AList.update\<close> (replace in place, else append), \<^verbatim>\<open>d.get(k)\<close>
  is \<open>map_of\<close>, \<^verbatim>\<open>d.values()\<close> is \<open>map snd\<close>. Values that are present have the JSON
  type the documents give them (strings, objects, lists).
\<close>

datatype error = ValueError | AttributeError | TypeError | ClientError

datatype 'a field = Absent | Null | Present 'a

text \<open>Truthiness of an optional string: \<^verbatim>\<open>not x\<close> holds for \<^verbatim>\<open>None\<close> and for \<^verbatim>\<open>''\<close>.\<close>

definition falsy :: "string option \<Rightarrow> bool" where
  "falsy x = (case x of None \<Rightarrow> True | Some s \<Rightarrow> s = [])"

text \<open>Formatting an optional string inside an f-string: \<^verbatim>\<open>None\<close> prints as \<^verbatim>\<open>None\<close>.\<close>

definition py_str :: "string option \<Rightarrow> string" where
  "py_str x = (case x of None \<Rightarrow> ''None'' | Some s \<Rightarrow> s)"

text \<open>\<^verbatim>\<open>s.split(sep)\<close> for a one-character separator: always at least one piece.\<close>

fun split_str :: "char \<Rightarrow> string \<Rightarrow> string list" where
  "split_str sep [] = [[]]"
| "split_str sep (c # cs) =
     (if c = sep then [] # split_str sep cs
      else (case split_str sep cs of
              w # ws \<Rightarrow> (c # w) # ws
            | [] \<Rightarrow> [[c]]))"

definition startswith :: "string \<Rightarrow> string \<Rightarrow> bool" where
  "startswith s p = (take (length p) s = p)"

section \<open>Version Map Builder\<close>

text \<open>
  A lock entry carries an optional \<^verbatim>\<open>version\<close> field; the lock document carries the
  field \<^verbatim>\<open>object\<close>, read with the default \<^verbatim>\<open>{}\<close>; on a null \<^verbatim>\<open>object\<close> the call of
  \<^verbatim>\<open>.items()\<close> raises. The package map is a dict whose values may be
  \<^verbatim>\<open>None\<close>: \<open>m k = None\<close> means the key is absent, \<open>m k = Some None\<close> means the key
  is present with the value \<^verbatim>\<open>None\<close>.
\<close>

datatype lock_entry = LockEntry (lversion: "string option")

type_synonym lock_json = "(string \<times> lock_entry) list field"

type_synonym package_map = "string \<Rightarrow> string option option"

definition pm_get :: "package_map \<Rightarrow> string \<Rightarrow> string option" where
  "pm_get m k = (case m k of None \<Rightarrow> None | Some v \<Rightarrow> v)"

definition parse_yarn_lock :: "lock_json \<Rightarrow> error + package_map" where
  "parse_yarn_lock json_element =
     (case json_element of
        Null \<Rightarrow> Inl AttributeError
      | Absent \<Rightarrow> Inr Map.empty
      | Present obj \<Rightarrow>
          Inr (fold (\<lambda>(key, dependency) package_map.
                       package_map(key \<mapsto> lversion dependency))
                    obj Map.empty))"

section \<open>Flat Tree Normalizer\<close>

definition get_name :: "string \<Rightarrow> error + string" where
  "get_name name =
     (case split_str CHR ''@'' name of
        parsedName # signName # rest \<Rightarrow>
          (if startswith name ''@'' then Inr (''@'' @ signName) else Inr parsedName)
      | _ \<Rightarrow> Inl ValueError)"

text \<open>
  A record of the raw listing: \<^verbatim>\<open>{name: ..., children: [...]}\<close>; \<^verbatim>\<open>children\<close> is read
  with the default \<^verbatim>\<open>[]\<close>, and the loop over a null \<^verbatim>\<open>children\<close> raises.
\<close>

datatype listing = Listing (lname: "string option") (lchildren: "listing list field")

text \<open>
  A flat-tree record \<^verbatim>\<open>{name, version, dependencies}\<close>. Every read of
  \<^verbatim>\<open>dependencies\<close> in the runner treats a missing field and the empty dict alike, so
  the field is the association list itself.
\<close>

datatype flat = Flat (fname: "string option") (fversion: "string option")
                     (fdeps: "(string \<times> flat) list")

fun get_flat_tree_loop ::
  "listing list \<Rightarrow> package_map \<Rightarrow> (string \<times> flat) list \<Rightarrow> error + (string \<times> flat) list"
where
  "get_flat_tree_loop [] package_map flat_tree = Inr flat_tree"
| "get_flat_tree_loop (Listing nm children # rest) package_map flat_tree =
     (case nm of
        None \<Rightarrow> Inl AttributeError
      | Some dep_full_name \<Rightarrow>
          (case get_name dep_full_name of
             Inl e \<Rightarrow> Inl e
           | Inr n \<Rightarrow>
               (case (case children of
                        Null \<Rightarrow> Inl TypeError
                      | Absent \<Rightarrow> Inr []
                      | Present cs \<Rightarrow> get_flat_tree_loop cs package_map []) of
                  Inl e \<Rightarrow> Inl e
                | Inr sub \<Rightarrow>
                    get_flat_tree_loop rest package_map
                      (AList.update dep_full_name
                         (Flat (Some n) (pm_get package_map dep_full_name) sub) flat_tree))))"

text \<open>The argument is \<open>None\<close> when the caller read a null list.\<close>

definition get_flat_tree ::
  "listing list option \<Rightarrow> package_map \<Rightarrow> error + (string \<times> flat) list" where
  "get_flat_tree dependencies package_map =
     (case dependencies of
        None \<Rightarrow> Inl TypeError
      | Some ds \<Rightarrow> get_flat_tree_loop ds package_map [])"

section \<open>Graph Reconciler\<close>

text \<open>
  A tree node under construction (\<^verbatim>\<open>AnyNode\<close>) as the reconciler reads it: its name,
  version, the helper field \<^verbatim>\<open>dependencies\<close> and the parent link. Name and version are
  the values the node was created with, so either may be \<^verbatim>\<open>None\<close> (the name only at
  the root, for a manifest whose name is null). Children are not read during
  construction; the functions below return the subtrees they attach. The finished
  tree, after the helper field is deleted, is a \<open>dtree\<close>.
\<close>

datatype anode = ANode (aname: "string option") (aversion: "string option")
                       (adeps: "(string \<times> flat) list") (aparent: "anode option")

datatype dtree = DNode (dname: "string option") (dversion: "string option")
                       (dchildren: "dtree list")

text \<open>
  \<^verbatim>\<open>get_node_from_dependency\<close>: no node for a record whose version or name is \<^verbatim>\<open>None\<close>
  or empty; otherwise a node with the record's name, version and dependencies, attached
  to the parent.
\<close>

definition get_node_from_dependency :: "flat \<Rightarrow> anode \<Rightarrow> anode option" where
  "get_node_from_dependency dependency parent =
     (let dep_version = fversion dependency;
          dep_name = fname dependency
      in if falsy dep_version \<or> falsy dep_name then None
         else Some (ANode dep_name dep_version (fdeps dependency) (Some parent)))"

text \<open>
  \<^verbatim>\<open>find_full_dependency\<close>: the record stored at the name, when the dict is non-empty,
  the name is a key and the record's own dependencies are non-empty. (A record is a dict
  with keys, hence truthy.)
\<close>

definition find_full_dependency :: "(string \<times> flat) list \<Rightarrow> string \<Rightarrow> flat option" where
  "find_full_dependency dependencies name =
     (if dependencies = [] then None
      else (case map_of dependencies name of
              None \<Rightarrow> None
            | Some dependency \<Rightarrow>
                (if fdeps dependency \<noteq> [] then Some dependency else None)))"

text \<open>
  The statement \<^verbatim>\<open>if not dep and full_dep:\<close> with its two assignments, which occurs in
  the loop and once more for the root: the node's \<^verbatim>\<open>dependencies\<close> become those of the
  first full record found.
\<close>

definition adopt :: "anode \<Rightarrow> flat option \<Rightarrow> flat option \<Rightarrow> anode \<times> flat option" where
  "adopt node dep full_dep =
     (case (dep, full_dep) of
        (None, Some fd) \<Rightarrow>
          (ANode (aname node) (aversion node) (fdeps fd) (aparent node), Some fd)
      | _ \<Rightarrow> (node, dep))"

text \<open>
  The loop \<^verbatim>\<open>while checkNode.parent:\<close>. Its state is \<^verbatim>\<open>checkNode\<close>, the node being
  built, \<^verbatim>\<open>dep\<close> and \<^verbatim>\<open>names\<close>; each round looks the key up in \<^verbatim>\<open>checkNode\<close>, moves
  to the parent and appends the parent's name. It ends at the root, which is returned.
\<close>

fun ancestor_loop ::
  "anode \<Rightarrow> string \<Rightarrow> anode \<Rightarrow> flat option \<Rightarrow> string option list
   \<Rightarrow> anode \<times> anode \<times> flat option \<times> string option list"
where
  "ancestor_loop (ANode n v ds None) dep_name node dep names =
     (ANode n v ds None, node, dep, names)"
| "ancestor_loop (ANode n v ds (Some p)) dep_name node dep names =
     (let full_dep = find_full_dependency ds dep_name;
          (node', dep') = adopt node dep full_dep
      in ancestor_loop p dep_name node' dep' (names @ [aname p]))"

text \<open>
  The chain of a node: the node itself and its ancestors up to the root. The search
  over a chain; the names occurring in a record; the names on a chain; the names the
  cycle guard compares with when a child of \<open>p\<close> is built (the chain of \<open>p\<close>
  without \<open>p\<close> itself and without the root); and the measure that decreases along
  the recursion of \<^verbatim>\<open>add_nested_dependencies\<close>.
\<close>

fun ancestors :: "anode \<Rightarrow> anode list" where
  "ancestors (ANode n v ds None) = [ANode n v ds None]"
| "ancestors (ANode n v ds (Some p)) = ANode n v ds (Some p) # ancestors p"

fun first_full :: "anode list \<Rightarrow> string \<Rightarrow> flat option" where
  "first_full [] key = None"
| "first_full (a # as) key =
     (case find_full_dependency (adeps a) key of
        Some fd \<Rightarrow> Some fd
      | None \<Rightarrow> first_full as key)"

fun flat_names :: "flat \<Rightarrow> string option set" where
  "flat_names (Flat n v ds) = {n} \<union> (\<Union>kf \<in> set ds. flat_names (snd kf))"

definition set_deps :: "anode \<Rightarrow> (string \<times> flat) list \<Rightarrow> anode" where
  "set_deps node ds = ANode (aname node) (aversion node) ds (aparent node)"

definition chain_names :: "anode \<Rightarrow> string option list" where
  "chain_names p = map aname (ancestors p)"

definition chain_universe :: "anode \<Rightarrow> string option set" where
  "chain_universe p =
     set (chain_names p) \<union> (\<Union>a \<in> set (ancestors p). \<Union>kf \<in> set (adeps a). flat_names (snd kf))"

definition guard_names :: "anode \<Rightarrow> string option list" where
  "guard_names p = butlast (tl (chain_names p))"

definition expansion_measure :: "flat \<Rightarrow> anode \<Rightarrow> nat" where
  "expansion_measure x p =
     2 * card ((flat_names x \<union> chain_universe p) - set (guard_names p))
     + (if aname p \<in> set (guard_names p) then 1 else 0)
     + (if aparent p = None then 1 else 0)"

lemma ancestors_nonempty: "ancestors p \<noteq> []"
  by (induction p rule: ancestors.induct) auto

lemma adopt_simps:
  "adopt node None (Some fd) = (set_deps node (fdeps fd), Some fd)"
  "adopt node (Some x) full_dep = (node, Some x)"
  "adopt node dep None = (node, dep)"
  by (auto simp: adopt_def set_deps_def split: option.splits)

lemma ancestor_loop_char:
  "ancestor_loop parent key node dep names =
     (last (ancestors parent),
      (case dep of Some x \<Rightarrow> node
       | None \<Rightarrow> (case first_full (butlast (ancestors parent)) key of
                    None \<Rightarrow> node | Some fd \<Rightarrow> set_deps node (fdeps fd))),
      (case dep of Some x \<Rightarrow> Some x
       | None \<Rightarrow> first_full (butlast (ancestors parent)) key),
      names @ tl (chain_names parent))"
proof (induction parent key node dep names rule: ancestor_loop.induct)
  case (1 n v ds dep_name node dep names)
  show ?case by (simp add: chain_names_def split: option.splits)
next
  case (2 n v ds p dep_name node dep names)
  show ?case
  proof (cases dep)
    case (Some x)
    then show ?thesis
      using "2.IH" [of "find_full_dependency ds dep_name" "(node, Some x)" node "Some x"]
      by (cases p rule: ancestors.cases) (simp_all add: adopt_simps chain_names_def ancestors_nonempty)
  next
    case None
    show ?thesis
    proof (cases "find_full_dependency ds dep_name")
      case N2: None
      then show ?thesis
        using None "2.IH" [of None "(node, None)" node None]
        by (cases p rule: ancestors.cases) (simp_all add: adopt_simps chain_names_def ancestors_nonempty)
    next
      case (Some fd)
      then show ?thesis
        using None "2.IH" [of "Some fd" "(set_deps node (fdeps fd), Some fd)" "set_deps node (fdeps fd)" "Some fd"]
        by (cases p rule: ancestors.cases) (simp_all add: adopt_simps chain_names_def ancestors_nonempty)
    qed
  qed
qed

lemma first_full_append:
  "first_full (xs @ [r]) key =
     (case first_full xs key of
        Some fd \<Rightarrow> Some fd
      | None \<Rightarrow> find_full_dependency (adeps r) key)"
  by (induction xs) (auto split: option.splits)

lemma first_full_ancestors:
  "first_full (ancestors p) key =
     (case first_full (butlast (ancestors p)) key of
        Some fd \<Rightarrow> Some fd
      | None \<Rightarrow> find_full_dependency (adeps (last (ancestors p))) key)"
  using first_full_append [of "butlast (ancestors p)" "last (ancestors p)" key]
  by (simp add: ancestors_nonempty)

lemma root_check_char:
  "adopt (case first_full (butlast (ancestors parent)) key of
            None \<Rightarrow> node | Some fd \<Rightarrow> set_deps node (fdeps fd))
         (first_full (butlast (ancestors parent)) key)
         (find_full_dependency (adeps (last (ancestors parent))) key)
   = (case first_full (ancestors parent) key of
        None \<Rightarrow> (node, None)
      | Some fd \<Rightarrow> (set_deps node (fdeps fd), Some fd))"
  by (simp add: first_full_ancestors [of parent key] adopt_simps split: option.splits)

lemma find_full_dependency_SomeD:
  "find_full_dependency ds key = Some fd \<Longrightarrow> (key, fd) \<in> set ds \<and> fdeps fd \<noteq> []"
  by (auto simp: find_full_dependency_def split: if_splits option.splits dest: map_of_SomeD)

lemma first_full_SomeD:
  "first_full as key = Some fd \<Longrightarrow> \<exists>a \<in> set as. (key, fd) \<in> set (adeps a) \<and> fdeps fd \<noteq> []"
  by (induction as) (auto split: option.splits dest: find_full_dependency_SomeD)

lemma get_node_from_dependency_SomeD:
  "get_node_from_dependency d parent = Some node \<Longrightarrow>
     fname d = aname node \<and> \<not> falsy (aname node) \<and> aversion node = fversion d
     \<and> (\<exists>v. fversion d = Some v \<and> v \<noteq> []) \<and> adeps node = fdeps d
     \<and> aparent node = Some parent"
  by (auto simp: get_node_from_dependency_def Let_def falsy_def py_str_def
           split: if_splits option.splits)

lemma ancestors_child:
  "aparent node = Some parent \<Longrightarrow> ancestors node = node # ancestors parent"
  by (cases node) simp

lemma finite_flat_names: "finite (flat_names x)"
  by (induction x rule: flat_names.induct) (auto split: option.splits)

lemma finite_chain_universe: "finite (chain_universe p)"
  by (simp add: chain_universe_def finite_flat_names)

lemma flat_names_child:
  "(k, f) \<in> set (fdeps x) \<Longrightarrow> flat_names f \<subseteq> flat_names x"
  by (cases x) force

lemma flat_names_own: "fname x \<in> flat_names x"
  by (cases x) simp

lemma first_full_names:
  assumes "first_full (ancestors p) key = Some dp"
  shows "flat_names dp \<subseteq> chain_universe p"
proof -
  obtain a where "a \<in> set (ancestors p)" "(key, dp) \<in> set (adeps a)"
    using first_full_SomeD [OF assms] by blast
  then show ?thesis unfolding chain_universe_def by force
qed

lemma chain_universe_child:
  assumes "aparent node = Some parent" "flat_names dp \<subseteq> chain_universe parent"
  shows "chain_universe (set_deps node (fdeps dp)) \<subseteq> insert (aname node) (chain_universe parent)"
proof -
  have anc: "ancestors (set_deps node (fdeps dp)) = set_deps node (fdeps dp) # ancestors parent"
    using assms(1) by (simp add: ancestors_child set_deps_def)
  have "(\<Union>kf \<in> set (fdeps dp). flat_names (snd kf)) \<subseteq> flat_names dp"
    using flat_names_child [of _ _ dp] by force
  then show ?thesis
    using assms(2) unfolding chain_universe_def chain_names_def anc
    by (auto simp: set_deps_def)
qed

lemma guard_names_child:
  "aparent node = Some parent \<Longrightarrow>
     guard_names (set_deps node ds) = butlast (chain_names parent)"
  by (simp add: guard_names_def chain_names_def ancestors_child set_deps_def)

lemma butlast_chain_names:
  "set (butlast (chain_names p)) =
     (if aparent p = None then {} else insert (aname p) (set (guard_names p)))"
  by (cases p rule: ancestors.cases)
     (simp_all add: guard_names_def chain_names_def ancestors_nonempty)

lemma expansion_step:
  assumes node: "get_node_from_dependency d parent = Some node"
    and dp: "first_full (ancestors parent) key = Some dp"
    and guard: "aname node \<notin> set (guard_names parent)"
  shows "expansion_measure dp (set_deps node (fdeps dp)) < expansion_measure d parent"
proof -
  let ?node' = "set_deps node (fdeps dp)"
  let ?U = "flat_names d \<union> chain_universe parent"
  let ?U' = "flat_names dp \<union> chain_universe ?node'"
  let ?G = "set (guard_names parent)"
  let ?G' = "set (guard_names ?node')"
  have par: "aparent node = Some parent" and nm: "aname node \<in> flat_names d"
    using get_node_from_dependency_SomeD [OF node] flat_names_own [of d] by auto
  have sub: "?U' \<subseteq> ?U"
    using first_full_names [OF dp] chain_universe_child [OF par first_full_names [OF dp]] nm
    by auto
  have fin: "finite ?U" by (simp add: finite_flat_names finite_chain_universe)
  have G': "?G' = (if aparent parent = None then {} else insert (aname parent) ?G)"
    by (simp add: guard_names_child [OF par] butlast_chain_names)
  have name': "aname ?node' = aname node" "aparent ?node' = Some parent"
    using par by (simp_all add: set_deps_def)
  show ?thesis
  proof (cases "aparent parent = None")
    case True
    then have "?G' = {}" using G' by simp
    moreover have "?G = {}"
      using True by (cases parent) (simp add: guard_names_def chain_names_def)
    moreover have "card ?U' \<le> card ?U" using sub fin by (rule card_mono [rotated])
    ultimately show ?thesis using True name' by (simp add: expansion_measure_def)
  next
    case False
    then have G'eq: "?G' = insert (aname parent) ?G" using G' by simp
    show ?thesis
    proof (cases "aname parent \<in> ?G")
      case True
      then have "?G' = ?G" using G'eq by auto
      moreover have "card (?U' - ?G) \<le> card (?U - ?G)"
        using sub fin by (intro card_mono) auto
      ultimately show ?thesis
        using True False guard name' by (simp add: expansion_measure_def)
    next
      case notin: False
      have "aname parent \<in> chain_universe parent"
        by (cases parent rule: ancestors.cases) (simp_all add: chain_universe_def chain_names_def)
      then have "aname parent \<in> ?U - ?G" using notin by simp
      moreover have "aname parent \<notin> ?U' - ?G'" using G'eq by simp
      moreover have "?U' - ?G' \<subseteq> ?U - ?G" using sub G'eq by auto
      ultimately have "?U' - ?G' \<subset> ?U - ?G" by blast
      then have "card (?U' - ?G') < card (?U - ?G)"
        using fin by (intro psubset_card_mono) auto
      then show ?thesis
        using notin False name' by (simp add: expansion_measure_def)
    qed
  qed
qed

lemma expansion_measure_child:
  "(k, x) \<in> set (fdeps dependency) \<Longrightarrow>
     expansion_measure x parent \<le> expansion_measure dependency parent"
proof -
  assume "(k, x) \<in> set (fdeps dependency)"
  then have "flat_names x \<subseteq> flat_names dependency" by (rule flat_names_child)
  then have "card ((flat_names x \<union> chain_universe parent) - set (guard_names parent))
           \<le> card ((flat_names dependency \<union> chain_universe parent) - set (guard_names parent))"
    by (intro card_mono) (auto simp: finite_flat_names finite_chain_universe)
  then show ?thesis by (simp add: expansion_measure_def)
qed

text \<open>
  \<^verbatim>\<open>add_nested_dependencies\<close> runs over the values of the record's dependencies in order;
  \<open>add_dependency\<close> is the body of that loop for one record. Both return the subtrees
  they attach to the parent, in the order of attachment.
\<close>

function add_nested_dependencies :: "flat \<Rightarrow> anode \<Rightarrow> dtree list"
  and add_dependency :: "flat \<Rightarrow> anode \<Rightarrow> dtree list"
where
  "add_nested_dependencies dependency parent =
     concat (map (\<lambda>d. add_dependency d parent) (map snd (fdeps dependency)))"
| "add_dependency d parent =
     (case get_node_from_dependency d parent of
        None \<Rightarrow> []
      | Some node \<Rightarrow>
          (let dep_name = py_str (aname node) @ ''@'' @ py_str (aversion node);
               (checkNode, node1, dep1, names) = ancestor_loop parent dep_name node None [];
               full_dep = find_full_dependency (adeps checkNode) dep_name;
               (node2, dep2) = adopt node1 dep1 full_dep;
               names' = butlast names
           in [DNode (aname node2) (aversion node2)
                 (if aname node2 \<notin> set names'
                  then (case dep2 of
                          Some dep \<Rightarrow> add_nested_dependencies dep node2
                        | None \<Rightarrow> [])
                  else [])]))"
  by pat_completeness auto
termination
proof (relation "measure (\<lambda>x. case x of
                   Inl (dep, par) \<Rightarrow> 2 * expansion_measure dep par + 1
                 | Inr (d, par) \<Rightarrow> 2 * expansion_measure d par)", goal_cases)
  case 1
  show ?case by simp
next
  case (2 dependency parent x)
  then obtain k where "(k, x) \<in> set (fdeps dependency)" by auto
  from expansion_measure_child [OF this, of parent] show ?case by simp
next
  case (3 d parent node dep_name loop checkNode y node1 ya dep1 names full_dep ad node2 dep2
          names' dep)
  have loop: "(checkNode, node1, dep1, names) = ancestor_loop parent dep_name node None []"
    using 3 by simp
  have ad: "adopt node1 dep1 (find_full_dependency (adeps checkNode) dep_name) = (node2, Some dep)"
    using 3 by simp
  have res: "(case first_full (ancestors parent) dep_name of
               None \<Rightarrow> (node, None)
             | Some fd \<Rightarrow> (set_deps node (fdeps fd), Some fd)) = (node2, Some dep)"
    using loop ad root_check_char [where parent = parent and key = dep_name and node = node]
    by (simp add: ancestor_loop_char)
  then have ff: "first_full (ancestors parent) dep_name = Some dep"
    and n2: "node2 = set_deps node (fdeps dep)"
    by (auto split: option.splits)
  have "names' = guard_names parent"
    using 3 loop by (simp add: ancestor_loop_char guard_names_def)
  moreover have "aname node2 = aname node" using n2 by (simp add: set_deps_def)
  ultimately have "aname node \<notin> set (guard_names parent)" using 3 by simp
  from expansion_step [OF "3"(1) ff this] show ?case using n2 by simp
qed


text \<open>
  The manifest: the project name (read with the default \<^verbatim>\<open>package.json\<close>, which
  replaces an absent name only), the version, and the declared dependencies in file
  order (read with the default \<^verbatim>\<open>{}\<close>; on a null the call of \<^verbatim>\<open>.items()\<close> raises).
  \<^verbatim>\<open>flat_tree.get(...)\<close> may return \<^verbatim>\<open>None\<close>; the next line calls \<^verbatim>\<open>.get\<close> on it, which
  raises \<^verbatim>\<open>AttributeError\<close>.
\<close>

datatype package_json = PackageJson (pj_name: "string field") (pj_version: "string option")
                                    (pj_dependencies: "(string \<times> string) list field")

fun top_level_loop ::
  "(string \<times> string) list \<Rightarrow> anode \<Rightarrow> (string \<times> flat) list \<Rightarrow> package_map
   \<Rightarrow> error + dtree list"
where
  "top_level_loop [] root flat_tree package_map = Inr []"
| "top_level_loop ((dep_name, dep_version) # rest) root flat_tree package_map =
     (let resolved_version = pm_get package_map (dep_name @ ''@'' @ dep_version);
          dependency = map_of flat_tree (dep_name @ ''@'' @ py_str resolved_version)
      in case dependency of
           None \<Rightarrow> Inl AttributeError
         | Some dependency \<Rightarrow>
             (let parent = ANode (Some dep_name) (fversion dependency) (fdeps dependency)
                                 (Some root);
                  children = add_nested_dependencies dependency parent
              in case top_level_loop rest root flat_tree package_map of
                   Inl e \<Rightarrow> Inl e
                 | Inr nodes \<Rightarrow>
                     Inr (DNode (Some dep_name) (fversion dependency) children # nodes)))"

definition get_dependency_tree ::
  "(string \<times> flat) list \<Rightarrow> package_json \<Rightarrow> package_map \<Rightarrow> error + dtree" where
  "get_dependency_tree flat_tree package_json package_map =
     (let root = ANode (case pj_name package_json of
                          Absent \<Rightarrow> Some ''package.json''
                        | Null \<Rightarrow> None
                        | Present n \<Rightarrow> Some n)
                       (pj_version package_json) flat_tree None
      in case (case pj_dependencies package_json of
                 Null \<Rightarrow> Inl AttributeError
               | Absent \<Rightarrow> top_level_loop [] root flat_tree package_map
               | Present ds \<Rightarrow> top_level_loop ds root flat_tree package_map) of
           Inl e \<Rightarrow> Inl e
         | Inr nodes \<Rightarrow> Inr (DNode (aname root) (aversion root) nodes))"

section \<open>YarnRunner.check\<close>

text \<open>
  The runner's inputs are the three parsed documents; reading them from disk and from
  the package manager is outside the model. The annotation pass adds the attribute
  \<^verbatim>\<open>license\<close> to every node of the tree.
\<close>

datatype ltree = LNode (lt_name: "string option") (lt_version: "string option")
                       (lt_license: "string option") (lt_children: "ltree list")

type_synonym license_map = "string \<Rightarrow> string option option"

fun annotate :: "license_map \<Rightarrow> dtree \<Rightarrow> ltree" where
  "annotate license_map (DNode n v cs) =
     LNode n v (pm_get license_map (py_str n @ ''@'' @ py_str v))
           (map (annotate license_map) cs)"

text \<open>
  The listing document: \<^verbatim>\<open>.get('data', {}).get('trees', [])\<close>. A null \<^verbatim>\<open>data\<close> raises at
  the second \<^verbatim>\<open>.get\<close>; a null \<^verbatim>\<open>trees\<close> is passed on as \<^verbatim>\<open>None\<close>.
\<close>

type_synonym yarn_list = "listing list field field"

definition check :: "package_json \<Rightarrow> lock_json \<Rightarrow> yarn_list \<Rightarrow> error + ltree \<times> license_map" where
  "check package_json lock_json list_json =
     (case parse_yarn_lock lock_json of
        Inl e \<Rightarrow> Inl e
      | Inr package_map \<Rightarrow>
          (case (case list_json of
                   Null \<Rightarrow> Inl AttributeError
                 | Absent \<Rightarrow> Inr (Some [])
                 | Present data \<Rightarrow>
                     Inr (case data of Absent \<Rightarrow> Some [] | Null \<Rightarrow> None | Present ts \<Rightarrow> Some ts)) of
             Inl e \<Rightarrow> Inl e
           | Inr trees \<Rightarrow>
               (case get_flat_tree trees package_map of
                  Inl e \<Rightarrow> Inl e
                | Inr flat_tree \<Rightarrow>
                    (case get_dependency_tree flat_tree package_json package_map of
                       Inl e \<Rightarrow> Inl e
                     | Inr dep_tree \<Rightarrow>
                         (let license_map = Map.empty
                          in Inr (annotate license_map dep_tree, license_map))))))"

section \<open>License Fetch Aggregator\<close>

text \<open>
  What a request yields: a failure of the transport, or a body that either fails to
  decode (\<open>Body None\<close>) or decodes to a JSON value. Only objects have \<^verbatim>\<open>.get\<close>; on any
  other value the call raises \<^verbatim>\<open>AttributeError\<close>. The field \<^verbatim>\<open>license\<close> is absent
  (\<open>None\<close>), null (\<open>Some None\<close>) or a string. The network (\<open>fetch\<close>) and the order
  in which requests complete (\<open>as_completed\<close>) are parameters.
\<close>

datatype info_json = InfoOther
  | Info (iname: "string option") (iversion: "string option") (ilicense: "string option option")

datatype page_json = PageOther | Page (pinfo: "info_json option")

datatype response = TransportFailure | Body (decoded: "page_json option")

definition PYPI_HOST :: string where
  "PYPI_HOST = ''https://pypi.org/pypi''"

fun fetch_concurrent :: "response list \<Rightarrow> license_map \<Rightarrow> error + license_map" where
  "fetch_concurrent [] license_map = Inr license_map"
| "fetch_concurrent (TransportFailure # results) license_map = Inl ClientError"
| "fetch_concurrent (Body None # results) license_map = fetch_concurrent results license_map"
| "fetch_concurrent (Body (Some PageOther) # results) license_map = Inl AttributeError"
| "fetch_concurrent (Body (Some (Page (Some InfoOther))) # results) license_map =
     Inl AttributeError"
| "fetch_concurrent (Body (Some (Page None)) # results) license_map =
     fetch_concurrent results (license_map(''None@None'' \<mapsto> Some ''Unknown''))"
| "fetch_concurrent (Body (Some (Page (Some (Info n v l)))) # results) license_map =
     fetch_concurrent results
       (license_map(py_str n @ ''@'' @ py_str v \<mapsto>
                      (case l of None \<Rightarrow> Some ''Unknown'' | Some x \<Rightarrow> x)))"

definition fetch_licenses ::
  "(string \<Rightarrow> response) \<Rightarrow> (response list \<Rightarrow> response list) \<Rightarrow> (string \<times> string) list
   \<Rightarrow> error + license_map" where
  "fetch_licenses fetch as_completed all_dependencies =
     (let urls = map (\<lambda>(dependency, version).
                        PYPI_HOST @ ''/'' @ dependency @ ''/'' @ version @ ''/json'')
                     all_dependencies;
          tasks = map fetch urls
      in fetch_concurrent (as_completed tasks) Map.empty)"


section \<open>Notions used to state the properties\<close>

text \<open>
  The key \<^verbatim>\<open>name@version\<close> of a node; the search of the specification, written from
  its words: the closest ancestor, from the immediate parent outward to the root, whose
  recorded child-set has an entry at the key with a non-empty child-set; the records that
  have a usable name and version; the (name, version) pairs of a list of nodes.
\<close>

definition dep_key :: "anode \<Rightarrow> string" where
  "dep_key node = py_str (aname node) @ ''@'' @ py_str (aversion node)"

definition authoritative :: "anode \<Rightarrow> string \<Rightarrow> flat option" where
  "authoritative parent key = first_full (ancestors parent) key"

definition usable :: "flat \<Rightarrow> bool" where
  "usable d = (\<not> falsy (fversion d) \<and> \<not> falsy (fname d))"

definition usable_entries :: "flat \<Rightarrow> (string option \<times> string option) list" where
  "usable_entries dp = map (\<lambda>d. (fname d, fversion d)) (filter usable (map snd (fdeps dp)))"

definition node_keys :: "dtree list \<Rightarrow> (string option \<times> string option) list" where
  "node_keys ts = map (\<lambda>t. (dname t, dversion t)) ts"

fun no_ancestor_name :: "string option list \<Rightarrow> dtree \<Rightarrow> bool" where
  "no_ancestor_name anc (DNode n v cs) =
     (n \<notin> set anc \<and> (\<forall>c \<in> set cs. no_ancestor_name (n # anc) c))"

definition acyclic_names :: "dtree \<Rightarrow> bool" where
  "acyclic_names t = (\<forall>c \<in> set (dchildren t). no_ancestor_name [] c)"

fun guard_ok :: "string option list \<Rightarrow> dtree \<Rightarrow> bool" where
  "guard_ok anc (DNode n v cs) =
     ((cs \<noteq> [] \<longrightarrow> n \<notin> set (tl anc)) \<and> (\<forall>c \<in> set cs. guard_ok (n # anc) c))"

definition expanded_names_guarded :: "dtree \<Rightarrow> bool" where
  "expanded_names_guarded t = (\<forall>c \<in> set (dchildren t). guard_ok [] c)"

fun height :: "dtree \<Rightarrow> nat" where
  "height (DNode n v cs) = Suc (fold max (map height cs) 0)"

definition record_names :: "(string \<times> flat) list \<Rightarrow> string option set" where
  "record_names flat_tree = (\<Union>kf \<in> set flat_tree. flat_names (snd kf))"

definition cyc_flat :: "(string \<times> flat) list" where
  "cyc_flat =
     [(''x@1.0.0'', Flat (Some ''x'') (Some ''1.0.0'')
                      [(''y@1.0.0'', Flat (Some ''y'') (Some ''1.0.0'') [])]),
      (''y@1.0.0'', Flat (Some ''y'') (Some ''1.0.0'')
                      [(''x@1.0.0'', Flat (Some ''x'') (Some ''1.0.0'') []),
                       (''w@2.0.0'', Flat (Some ''w'') None [])])]"

definition cyc_map :: package_map where
  "cyc_map = [''x@^1.0.0'' \<mapsto> Some ''1.0.0'']"

definition cyc_pkg :: package_json where
  "cyc_pkg = PackageJson (Present ''proj'') (Some ''0.1.0'') (Present [(''x'', ''^1.0.0'')])"

definition cyc_tree :: dtree where
  "cyc_tree = DNode (Some ''proj'') (Some ''0.1.0'')
       [DNode (Some ''x'') (Some ''1.0.0'')
         [DNode (Some ''y'') (Some ''1.0.0'') [DNode (Some ''x'') (Some ''1.0.0'') []]]]"

text \<open>
  The nodes of the project above while the second x is being built: the root, the
  top-level node x, its child y (which has adopted the root's record of y), and the
  records involved.
\<close>

definition cyc_root :: anode where
  "cyc_root = ANode (Some ''proj'') (Some ''0.1.0'') cyc_flat None"

definition cyc_x_record :: flat where
  "cyc_x_record = Flat (Some ''x'') (Some ''1.0.0'')
                    [(''y@1.0.0'', Flat (Some ''y'') (Some ''1.0.0'') [])]"

definition cyc_y_record :: flat where
  "cyc_y_record = Flat (Some ''y'') (Some ''1.0.0'')
                    [(''x@1.0.0'', Flat (Some ''x'') (Some ''1.0.0'') []),
                     (''w@2.0.0'', Flat (Some ''w'') None [])]"

definition cyc_x_node :: anode where
  "cyc_x_node = ANode (Some ''x'') (Some ''1.0.0'') (fdeps cyc_x_record) (Some cyc_root)"

definition cyc_y_node :: anode where
  "cyc_y_node = ANode (Some ''y'') (Some ''1.0.0'') (fdeps cyc_y_record) (Some cyc_x_node)"

definition cyc_x_again :: flat where
  "cyc_x_again = Flat (Some ''x'') (Some ''1.0.0'') []"

definition cyc_y_entry :: flat where
  "cyc_y_entry = Flat (Some ''y'') (Some ''1.0.0'') []"

text \<open>
  The reading of "the node's children exactly match the authoritative child-set": the
  children, in order, carry the names and versions of the entries of the record.
\<close>

definition children_match :: "dtree \<Rightarrow> flat \<Rightarrow> bool" where
  "children_match t dp =
     (map (\<lambda>c. (dname c, dversion c)) (dchildren t)
      = map (\<lambda>d. (fname d, fversion d)) (map snd (fdeps dp)))"

text \<open>
  Two projects in which the top-level packages a and b both list z at version 4.0.0.
  In the first the only full record of z is the one inside a's record; in the second
  it is at the root of the flat tree.
\<close>

definition dup_flat :: "(string \<times> flat) list" where
  "dup_flat =
     [(''a@1.0.0'', Flat (Some ''a'') (Some ''1.0.0'')
                      [(''z@4.0.0'', Flat (Some ''z'') (Some ''4.0.0'')
                                       [(''q@1.0.0'', Flat (Some ''q'') (Some ''1.0.0'') [])])]),
      (''b@1.0.0'', Flat (Some ''b'') (Some ''1.0.0'')
                      [(''z@4.0.0'', Flat (Some ''z'') (Some ''4.0.0'') [])])]"

definition hoist_flat :: "(string \<times> flat) list" where
  "hoist_flat =
     [(''a@1.0.0'', Flat (Some ''a'') (Some ''1.0.0'')
                      [(''z@4.0.0'', Flat (Some ''z'') (Some ''4.0.0'') [])]),
      (''b@1.0.0'', Flat (Some ''b'') (Some ''1.0.0'')
                      [(''z@4.0.0'', Flat (Some ''z'') (Some ''4.0.0'') [])]),
      (''z@4.0.0'', Flat (Some ''z'') (Some ''4.0.0'')
                      [(''q@1.0.0'', Flat (Some ''q'') (Some ''1.0.0'') [])])]"

definition dup_map :: package_map where
  "dup_map = [''a@1.0.0'' \<mapsto> Some ''1.0.0'', ''b@1.0.0'' \<mapsto> Some ''1.0.0'']"

definition dup_pkg :: package_json where
  "dup_pkg = PackageJson (Present ''proj'') (Some ''0.1.0'')
               (Present [(''a'', ''1.0.0''), (''b'', ''1.0.0'')])"

definition z_entry :: flat where
  "z_entry = Flat (Some ''z'') (Some ''4.0.0'') []"

definition z_full :: flat where
  "z_full = Flat (Some ''z'') (Some ''4.0.0'')
              [(''q@1.0.0'', Flat (Some ''q'') (Some ''1.0.0'') [])]"

definition dup_a_node :: anode where
  "dup_a_node = ANode (Some ''a'') (Some ''1.0.0'') [(''z@4.0.0'', z_full)]
                  (Some (ANode (Some ''proj'') (Some ''0.1.0'') dup_flat None))"

definition dup_b_node :: anode where
  "dup_b_node = ANode (Some ''b'') (Some ''1.0.0'') [(''z@4.0.0'', z_entry)]
                  (Some (ANode (Some ''proj'') (Some ''0.1.0'') dup_flat None))"

definition hoist_a_node :: anode where
  "hoist_a_node = ANode (Some ''a'') (Some ''1.0.0'') [(''z@4.0.0'', z_entry)]
                    (Some (ANode (Some ''proj'') (Some ''0.1.0'') hoist_flat None))"

definition hoist_b_node :: anode where
  "hoist_b_node = ANode (Some ''b'') (Some ''1.0.0'') [(''z@4.0.0'', z_entry)]
                    (Some (ANode (Some ''proj'') (Some ''0.1.0'') hoist_flat None))"

text \<open>A project whose one declared dependency has no entry in the version map.\<close>

definition unresolved_pkg :: package_json where
  "unresolved_pkg = PackageJson (Present ''proj'') (Some ''0.1.0'') (Present [(''a'', ''^1.0.0'')])"

definition unresolved_flat :: "(string \<times> flat) list" where
  "unresolved_flat = [(''a@1.2.0'', Flat (Some ''a'') None [])]"

text \<open>The license field of every node of an annotated tree.\<close>

fun licenses :: "ltree \<Rightarrow> string option list" where
  "licenses (LNode n v l cs) = l # concat (map licenses cs)"

text \<open>A lock document with an entry that has no version.\<close>

definition lock_example :: lock_json where
  "lock_example = Present [(''a@^1.0.0'', LockEntry (Some ''1.2.0'')),
                        (''b@^2.0.0'', LockEntry None)]"

text \<open>A project with an exact version in the manifest, its lock document and listing.\<close>

definition pinned_pkg :: package_json where
  "pinned_pkg = PackageJson (Present ''proj'') (Some ''0.1.0'') (Present [(''a'', ''1.2.0'')])"

definition pinned_lock :: lock_json where
  "pinned_lock = Present [(''a@1.2.0'', LockEntry (Some ''1.2.0'')),
                       (''b@2.0.0'', LockEntry None)]"

definition pinned_list :: yarn_list where
  "pinned_list =
     Present (Present [Listing (Some ''a@1.2.0'')
                         (Present [Listing (Some ''b@2.0.0'') (Present [])])])"

text \<open>
  What one completed request does to the license map: nothing when the body does not
  decode, an entry keyed by the name and version of the response otherwise; and the
  responses on which the aggregator raises.
\<close>

fun entry_of :: "response \<Rightarrow> (string \<times> string option) option" where
  "entry_of (Body (Some (Page None))) = Some (''None@None'', Some ''Unknown'')"
| "entry_of (Body (Some (Page (Some (Info n v l))))) =
     Some (py_str n @ ''@'' @ py_str v, (case l of None \<Rightarrow> Some ''Unknown'' | Some x \<Rightarrow> x))"
| "entry_of r = None"

fun raises :: "response \<Rightarrow> bool" where
  "raises TransportFailure = True"
| "raises (Body (Some PageOther)) = True"
| "raises (Body (Some (Page (Some InfoOther)))) = True"
| "raises r = False"

definition pypi_url :: "string \<times> string \<Rightarrow> string" where
  "pypi_url p = PYPI_HOST @ ''/'' @ fst p @ ''/'' @ snd p @ ''/json''"

definition pair_key :: "string \<times> string \<Rightarrow> string" where
  "pair_key p = fst p @ ''@'' @ snd p"

text \<open>
  A registry that answers the one request made below with a document whose license
  field is null, and one that answers two of three requests, the third with a body
  that is not JSON.
\<close>

definition null_license_registry :: "string \<Rightarrow> response" where
  "null_license_registry url =
     Body (Some (Page (Some (Info (Some ''requests'') (Some ''2.0'') (Some None)))))"

definition partial_registry :: "string \<Rightarrow> response" where
  "partial_registry url =
     (if url = ''https://pypi.org/pypi/flask/1.0/json''
      then Body (Some (Page (Some (Info (Some ''flask'') (Some ''1.0'') (Some (Some ''BSD''))))))
      else if url = ''https://pypi.org/pypi/six/1.12/json''
      then Body (Some (Page (Some (Info (Some ''six'') (Some ''1.12'') None))))
      else Body None)"

text \<open>
  A project whose listing names a by its installed version and b once by a range and
  once by its installed version, while the lock data knows a and b by their ranges
  only: the records of \<^verbatim>\<open>a@1.2.0\<close> and \<^verbatim>\<open>b@2.0.0\<close> get no version.
\<close>

definition ranged_listing :: "listing list" where
  "ranged_listing =
     [Listing (Some ''a@1.2.0'') (Present [Listing (Some ''b@^2.0.0'') (Present [])]),
      Listing (Some ''b@2.0.0'') (Present [Listing (Some ''c@3.0.0'') (Present [])])]"

definition ranged_map :: package_map where
  "ranged_map = [''a@^1.0.0'' \<mapsto> Some ''1.2.0'', ''b@^2.0.0'' \<mapsto> Some ''2.0.0'',
                 ''c@3.0.0'' \<mapsto> Some ''3.0.0'']"

definition ranged_pkg :: package_json where
  "ranged_pkg = PackageJson (Present ''proj'') (Some ''0.1.0'') (Present [(''a'', ''^1.0.0'')])"

definition ranged_a_record :: flat where
  "ranged_a_record = Flat (Some ''a'') None
                       [(''b@^2.0.0'', Flat (Some ''b'') (Some ''2.0.0'') [])]"

definition ranged_b_record :: flat where
  "ranged_b_record = Flat (Some ''b'') None
                       [(''c@3.0.0'', Flat (Some ''c'') (Some ''3.0.0'') [])]"

definition ranged_flat :: "(string \<times> flat) list" where
  "ranged_flat = [(''a@1.2.0'', ranged_a_record), (''b@2.0.0'', ranged_b_record)]"

definition ranged_a_node :: anode where
  "ranged_a_node = ANode (Some ''a'') None (fdeps ranged_a_record)
                     (Some (ANode (Some ''proj'') (Some ''0.1.0'') ranged_flat None))"

section \<open>The reconciler's search and recursion, characterised\<close>

lemma add_dependency_char:
  "add_dependency d parent =
     (case get_node_from_dependency d parent of
        None \<Rightarrow> []
      | Some node \<Rightarrow>
          [DNode (aname node) (aversion node)
             (if aname node \<in> set (guard_names parent) then []
              else (case authoritative parent (dep_key node) of
                      None \<Rightarrow> []
                    | Some dp \<Rightarrow> add_nested_dependencies dp (set_deps node (fdeps dp))))])"
proof (cases "get_node_from_dependency d parent")
  case None
  then show ?thesis by simp
next
  case (Some node)
  let ?key = "py_str (aname node) @ ''@'' @ py_str (aversion node)"
  have loop: "ancestor_loop parent ?key node None [] =
      (last (ancestors parent),
       (case first_full (butlast (ancestors parent)) ?key of
          None \<Rightarrow> node | Some fd \<Rightarrow> set_deps node (fdeps fd)),
       first_full (butlast (ancestors parent)) ?key,
       tl (chain_names parent))"
    by (simp add: ancestor_loop_char)
  show ?thesis
  proof (cases "first_full (ancestors parent) ?key")
    case None
    then have "adopt (case first_full (butlast (ancestors parent)) ?key of
            None \<Rightarrow> node | Some fd \<Rightarrow> set_deps node (fdeps fd))
         (first_full (butlast (ancestors parent)) ?key)
         (find_full_dependency (adeps (last (ancestors parent))) ?key) = (node, None)"
      using root_check_char [where parent = parent and key = ?key and node = node] by simp
    then show ?thesis
      using Some None loop
      by (simp add: authoritative_def dep_key_def guard_names_def)
  next
    case (Some dp)
    then have "adopt (case first_full (butlast (ancestors parent)) ?key of
            None \<Rightarrow> node | Some fd \<Rightarrow> set_deps node (fdeps fd))
         (first_full (butlast (ancestors parent)) ?key)
         (find_full_dependency (adeps (last (ancestors parent))) ?key)
         = (set_deps node (fdeps dp), Some dp)"
      using root_check_char [where parent = parent and key = ?key and node = node] by simp
    then show ?thesis
      using \<open>get_node_from_dependency d parent = Some node\<close> Some loop
      by (simp add: authoritative_def dep_key_def guard_names_def set_deps_def)
  qed
qed

declare add_dependency.simps [simp del]

lemma reconcile_induct_aux:
  assumes nested: "\<And>dependency parent.
            (\<And>k d. (k, d) \<in> set (fdeps dependency) \<Longrightarrow> Q d parent) \<Longrightarrow> P dependency parent"
    and step: "\<And>d parent.
            (\<And>node dp. get_node_from_dependency d parent = Some node \<Longrightarrow>
                aname node \<notin> set (guard_names parent) \<Longrightarrow>
                authoritative parent (dep_key node) = Some dp \<Longrightarrow>
                P dp (set_deps node (fdeps dp))) \<Longrightarrow> Q d parent"
  shows "Q d parent"
proof (induction "expansion_measure d parent" arbitrary: d parent rule: less_induct)
  case less
  show ?case
  proof (rule step)
    fix node dp
    assume n: "get_node_from_dependency d parent = Some node"
      and g: "aname node \<notin> set (guard_names parent)"
      and a: "authoritative parent (dep_key node) = Some dp"
    have lt: "expansion_measure dp (set_deps node (fdeps dp)) < expansion_measure d parent"
      using expansion_step [OF n _ g] a by (simp add: authoritative_def)
    show "P dp (set_deps node (fdeps dp))"
    proof (rule nested)
      fix k c
      assume "(k, c) \<in> set (fdeps dp)"
      from expansion_measure_child [OF this, of "set_deps node (fdeps dp)"] lt
      have "expansion_measure c (set_deps node (fdeps dp)) < expansion_measure d parent"
        by simp
      then show "Q c (set_deps node (fdeps dp))" by (rule less)
    qed
  qed
qed

lemma reconcile_induct:
  assumes nested: "\<And>dependency parent.
            (\<And>k d. (k, d) \<in> set (fdeps dependency) \<Longrightarrow> Q d parent) \<Longrightarrow> P dependency parent"
    and step: "\<And>d parent.
            (\<And>node dp. get_node_from_dependency d parent = Some node \<Longrightarrow>
                aname node \<notin> set (guard_names parent) \<Longrightarrow>
                authoritative parent (dep_key node) = Some dp \<Longrightarrow>
                P dp (set_deps node (fdeps dp))) \<Longrightarrow> Q d parent"
  shows "P dependency parent \<and> Q d parent"
  using reconcile_induct_aux [of Q P, OF nested step] nested by blast

lemma node_keys_add_dependency:
  "node_keys (add_dependency d parent) =
     (if usable d then [(fname d, fversion d)] else [])"
  by (simp add: add_dependency_char node_keys_def get_node_from_dependency_def usable_def Let_def)

lemma node_keys_concat:
  "node_keys (concat (map (\<lambda>d. add_dependency d parent) ds)) =
     map (\<lambda>d. (fname d, fversion d)) (filter usable ds)"
proof (induction ds)
  case Nil
  show ?case by (simp add: node_keys_def)
next
  case (Cons d ds)
  have "node_keys (concat (map (\<lambda>d. add_dependency d parent) (d # ds))) =
        node_keys (add_dependency d parent) @ node_keys (concat (map (\<lambda>d. add_dependency d parent) ds))"
    by (simp add: node_keys_def)
  then show ?case using Cons by (simp add: node_keys_add_dependency)
qed

lemma node_keys_add_nested_dependencies:
  "node_keys (add_nested_dependencies dependency parent) = usable_entries dependency"
  using node_keys_concat [of parent "map snd (fdeps dependency)"]
  by (simp add: usable_entries_def)


lemma cyc_run: "get_dependency_tree cyc_flat cyc_pkg cyc_map = Inr cyc_tree"
  by code_simp

lemma chain_names_nonempty: "chain_names p \<noteq> []"
  by (simp add: chain_names_def ancestors_nonempty)

lemma chain_names_child:
  "aparent node = Some parent \<Longrightarrow> chain_names (set_deps node ds) = aname node # chain_names parent"
  by (simp add: chain_names_def ancestors_child set_deps_def)

lemma guard_names_tl_butlast: "guard_names p = tl (butlast (chain_names p))"
  by (simp add: guard_names_def butlast_tl)

lemma guard_ok_reconcile:
  "(\<forall>t \<in> set (add_nested_dependencies dependency parent). guard_ok (butlast (chain_names parent)) t)
   \<and> (\<forall>t \<in> set (add_dependency d parent). guard_ok (butlast (chain_names parent)) t)"
proof (rule reconcile_induct, goal_cases)
  case (1 dependency parent)
  then show ?case by auto
next
  case (2 d parent)
  show ?case
  proof (cases "get_node_from_dependency d parent")
    case None
    then show ?thesis by (simp add: add_dependency_char)
  next
    case (Some node)
    have par: "aparent node = Some parent"
      using get_node_from_dependency_SomeD [OF Some] by simp
    show ?thesis
    proof (cases "aname node \<in> set (guard_names parent)")
      case True
      then show ?thesis using Some by (simp add: add_dependency_char)
    next
      case False
      show ?thesis
      proof (cases "authoritative parent (dep_key node)")
        case None
        then show ?thesis using Some False by (simp add: add_dependency_char)
      next
        case (Some dp)
        have "\<forall>t \<in> set (add_nested_dependencies dp (set_deps node (fdeps dp))).
                guard_ok (butlast (chain_names (set_deps node (fdeps dp)))) t"
          using 2 [OF \<open>get_node_from_dependency d parent = Some node\<close> False Some] .
        moreover have "butlast (chain_names (set_deps node (fdeps dp)))
                       = aname node # butlast (chain_names parent)"
          by (simp add: chain_names_child [OF par] chain_names_nonempty)
        ultimately show ?thesis
          using \<open>get_node_from_dependency d parent = Some node\<close> False Some
          by (simp add: add_dependency_char guard_names_tl_butlast
                   del: add_nested_dependencies.simps)
      qed
    qed
  qed
qed

lemma top_level_loop_guard_ok:
  assumes "top_level_loop deps root flat_tree package_map = Inr nodes" "aparent root = None"
  shows "\<forall>c \<in> set nodes. guard_ok [] c"
  using assms
proof (induction deps arbitrary: nodes)
  case Nil
  then show ?case by simp
next
  case (Cons a deps)
  obtain dep_name dep_version where a: "a = (dep_name, dep_version)" by (cases a)
  let ?key = "dep_name @ ''@'' @ py_str (pm_get package_map (dep_name @ ''@'' @ dep_version))"
  from Cons.prems a obtain dependency rest where
    dep: "map_of flat_tree ?key = Some dependency"
    and rest: "top_level_loop deps root flat_tree package_map = Inr rest"
    and nodes: "nodes = DNode (Some dep_name) (fversion dependency)
        (add_nested_dependencies dependency
           (ANode (Some dep_name) (fversion dependency) (fdeps dependency) (Some root))) # rest"
    by (auto simp: Let_def simp del: add_nested_dependencies.simps
             split: option.splits sum.splits)
  let ?parent = "ANode (Some dep_name) (fversion dependency) (fdeps dependency) (Some root)"
  have "butlast (chain_names ?parent) = [Some dep_name]"
    using Cons.prems(2) by (cases root) (simp add: chain_names_def)
  then have "\<forall>t \<in> set (add_nested_dependencies dependency ?parent). guard_ok [Some dep_name] t"
    using guard_ok_reconcile [of dependency ?parent] by simp
  then show ?case
    using Cons.IH [OF rest Cons.prems(2)] nodes
    by (simp del: add_nested_dependencies.simps)
qed

lemma fold_max_le:
  "fold max xs (a::nat) \<le> b \<longleftrightarrow> a \<le> b \<and> (\<forall>x \<in> set xs. x \<le> b)"
  by (induction xs arbitrary: a) auto

lemma height_le:
  "height (DNode n v cs) \<le> Suc b \<longleftrightarrow> (\<forall>c \<in> set cs. height c \<le> b)"
  by (simp add: fold_max_le)

lemma height_reconcile:
  "(\<forall>t \<in> set (add_nested_dependencies dependency parent).
       height t \<le> Suc (expansion_measure dependency parent))
   \<and> (\<forall>t \<in> set (add_dependency d parent). height t \<le> Suc (expansion_measure d parent))"
proof (rule reconcile_induct, goal_cases)
  case (1 dependency parent)
  show ?case
  proof
    fix t
    assume "t \<in> set (add_nested_dependencies dependency parent)"
    then obtain k d where kd: "(k, d) \<in> set (fdeps dependency)"
      and t: "t \<in> set (add_dependency d parent)" by auto
    from 1 [OF kd] t have "height t \<le> Suc (expansion_measure d parent)" by simp
    with expansion_measure_child [OF kd, of parent]
    show "height t \<le> Suc (expansion_measure dependency parent)" by simp
  qed
next
  case (2 d parent)
  show ?case
  proof (cases "get_node_from_dependency d parent")
    case None
    then show ?thesis by (simp add: add_dependency_char)
  next
    case (Some node)
    show ?thesis
    proof (cases "aname node \<in> set (guard_names parent)")
      case True
      then show ?thesis using Some by (simp add: add_dependency_char)
    next
      case False
      show ?thesis
      proof (cases "authoritative parent (dep_key node)")
        case None
        then show ?thesis using Some False by (simp add: add_dependency_char)
      next
        case (Some dp)
        note node = \<open>get_node_from_dependency d parent = Some node\<close>
        have lt: "expansion_measure dp (set_deps node (fdeps dp)) < expansion_measure d parent"
          using expansion_step [OF node _ False] Some by (simp add: authoritative_def)
        have "\<forall>t \<in> set (add_nested_dependencies dp (set_deps node (fdeps dp))).
                height t \<le> Suc (expansion_measure dp (set_deps node (fdeps dp)))"
          using 2 [OF node False Some] .
        then have "\<forall>t \<in> set (add_nested_dependencies dp (set_deps node (fdeps dp))).
                height t \<le> expansion_measure d parent"
          using lt by fastforce
        then show ?thesis
          using node False Some
          by (simp only: add_dependency_char option.case if_False list.set height_le
                         ball_simps singleton_iff simp_thms)
      qed
    qed
  qed
qed

lemma finite_record_names: "finite (record_names flat_tree)"
  by (simp add: record_names_def finite_flat_names)

lemma top_level_measure:
  assumes dep: "map_of flat_tree key = Some dependency"
    and root: "aparent root = None" "adeps root = flat_tree"
  shows "expansion_measure dependency
           (ANode dep_name v (fdeps dependency) (Some root))
         \<le> 2 * card (record_names flat_tree) + 4"
proof -
  let ?parent = "ANode dep_name v (fdeps dependency) (Some root)"
  have in_tree: "(key, dependency) \<in> set flat_tree" using dep by (rule map_of_SomeD)
  then have d: "flat_names dependency \<subseteq> record_names flat_tree"
    unfolding record_names_def by force
  have anc: "ancestors ?parent = [?parent, root]"
    using root(1) by (cases root) simp
  have "(\<Union>kf \<in> set (fdeps dependency). flat_names (snd kf)) \<subseteq> flat_names dependency"
    using flat_names_child [of _ _ dependency] by force
  then have "chain_universe ?parent \<subseteq> {dep_name, aname root} \<union> record_names flat_tree"
    using d root(2) unfolding chain_universe_def chain_names_def anc record_names_def
    by auto
  then have "(flat_names dependency \<union> chain_universe ?parent) - set (guard_names ?parent)
             \<subseteq> {dep_name, aname root} \<union> record_names flat_tree"
    using d by auto
  then have "card ((flat_names dependency \<union> chain_universe ?parent) - set (guard_names ?parent))
             \<le> card ({dep_name, aname root} \<union> record_names flat_tree)"
    by (intro card_mono) (auto simp: finite_record_names)
  also have "\<dots> \<le> card {dep_name, aname root} + card (record_names flat_tree)"
    by (rule card_Un_le)
  also have "\<dots> \<le> 2 + card (record_names flat_tree)"
    by (simp add: card_insert_if)
  finally have "card ((flat_names dependency \<union> chain_universe ?parent) - set (guard_names ?parent))
                \<le> 2 + card (record_names flat_tree)" .
  moreover have "guard_names ?parent = []"
    using root(1) by (cases root) (simp add: guard_names_def chain_names_def)
  ultimately show ?thesis by (simp add: expansion_measure_def)
qed

lemma top_level_loop_height:
  assumes "top_level_loop deps root flat_tree package_map = Inr nodes"
    "aparent root = None" "adeps root = flat_tree"
  shows "\<forall>c \<in> set nodes. height c \<le> 2 * card (record_names flat_tree) + 6"
  using assms(1)
proof (induction deps arbitrary: nodes)
  case Nil
  then show ?case by simp
next
  case (Cons a deps)
  obtain dep_name dep_version where a: "a = (dep_name, dep_version)" by (cases a)
  let ?key = "dep_name @ ''@'' @ py_str (pm_get package_map (dep_name @ ''@'' @ dep_version))"
  from Cons.prems a obtain dependency rest where
    dep: "map_of flat_tree ?key = Some dependency"
    and rest: "top_level_loop deps root flat_tree package_map = Inr rest"
    and nodes: "nodes = DNode (Some dep_name) (fversion dependency)
        (add_nested_dependencies dependency
           (ANode (Some dep_name) (fversion dependency) (fdeps dependency) (Some root))) # rest"
    by (auto simp: Let_def simp del: add_nested_dependencies.simps
             split: option.splits sum.splits)
  let ?parent = "ANode (Some dep_name) (fversion dependency) (fdeps dependency) (Some root)"
  have "\<forall>t \<in> set (add_nested_dependencies dependency ?parent).
          height t \<le> Suc (expansion_measure dependency ?parent)"
    using height_reconcile [of dependency ?parent] by simp
  then have "\<forall>t \<in> set (add_nested_dependencies dependency ?parent).
          height t \<le> 2 * card (record_names flat_tree) + 5"
    using top_level_measure [OF dep assms(2,3), of "Some dep_name" "fversion dependency"]
    by fastforce
  then have "height (DNode (Some dep_name) (fversion dependency)
                 (add_nested_dependencies dependency ?parent))
             \<le> Suc (2 * card (record_names flat_tree) + 5)"
    by (simp only: height_le)
  then show ?case
    using Cons.IH [OF rest] nodes
    by (simp del: add_nested_dependencies.simps height.simps)
qed

lemma parse_yarn_lock_fold:
  "fold (\<lambda>(key, dependency) package_map. package_map(key \<mapsto> lversion dependency)) entries m k
   = (case map_of (rev entries) k of None \<Rightarrow> m k | Some e \<Rightarrow> Some (lversion e))"
  by (induction entries arbitrary: m) (auto split: option.splits)

lemma licenses_annotate_empty:
  "l \<in> set (licenses (annotate Map.empty t)) \<Longrightarrow> l = None"
  by (induction t arbitrary: l) (auto simp: pm_get_def)

lemma fetch_concurrent_lookup:
  assumes "\<forall>r \<in> set rs. \<not> raises r"
  shows "\<exists>m. fetch_concurrent rs m0 = Inr m
           \<and> (\<forall>k. (\<forall>r \<in> set rs. \<forall>e. entry_of r = Some e \<longrightarrow> fst e \<noteq> k) \<longrightarrow> m k = m0 k)
           \<and> (\<forall>k x. (\<exists>r \<in> set rs. entry_of r = Some (k, x))
                    \<longrightarrow> (\<forall>r \<in> set rs. \<forall>y. entry_of r = Some (k, y) \<longrightarrow> y = x)
                    \<longrightarrow> m k = Some x)"
  using assms
proof (induction rs arbitrary: m0)
  case Nil
  then show ?case by simp
next
  case (Cons r rs)
  have ok: "\<forall>r \<in> set rs. \<not> raises r" and r: "\<not> raises r" using Cons.prems by simp_all
  show ?case
  proof (cases "entry_of r")
    case None
    then have step: "fetch_concurrent (r # rs) m0 = fetch_concurrent rs m0"
      using r by (cases r rule: entry_of.cases) simp_all
    obtain m where m: "fetch_concurrent rs m0 = Inr m"
      "\<forall>k. (\<forall>r \<in> set rs. \<forall>e. entry_of r = Some e \<longrightarrow> fst e \<noteq> k) \<longrightarrow> m k = m0 k"
      "\<forall>k x. (\<exists>r \<in> set rs. entry_of r = Some (k, x))
                    \<longrightarrow> (\<forall>r \<in> set rs. \<forall>y. entry_of r = Some (k, y) \<longrightarrow> y = x)
                    \<longrightarrow> m k = Some x"
      using Cons.IH [OF ok, of m0] by blast
    show ?thesis
      unfolding step using m None by auto
  next
    case (Some e)
    obtain k0 x0 where e: "e = (k0, x0)" by (cases e)
    have step: "fetch_concurrent (r # rs) m0 = fetch_concurrent rs (m0(k0 \<mapsto> x0))"
      using Some e by (cases r rule: entry_of.cases) simp_all
    obtain m where m: "fetch_concurrent rs (m0(k0 \<mapsto> x0)) = Inr m"
      "\<forall>k. (\<forall>r \<in> set rs. \<forall>e. entry_of r = Some e \<longrightarrow> fst e \<noteq> k) \<longrightarrow> m k = (m0(k0 \<mapsto> x0)) k"
      "\<forall>k x. (\<exists>r \<in> set rs. entry_of r = Some (k, x))
                    \<longrightarrow> (\<forall>r \<in> set rs. \<forall>y. entry_of r = Some (k, y) \<longrightarrow> y = x)
                    \<longrightarrow> m k = Some x"
      using Cons.IH [OF ok, of "m0(k0 \<mapsto> x0)"] by blast
    have a: "\<forall>k. (\<forall>r' \<in> set (r # rs). \<forall>e. entry_of r' = Some e \<longrightarrow> fst e \<noteq> k) \<longrightarrow> m k = m0 k"
    proof (intro allI impI)
      fix k
      assume h: "\<forall>r' \<in> set (r # rs). \<forall>e. entry_of r' = Some e \<longrightarrow> fst e \<noteq> k"
      then have "k0 \<noteq> k" using Some e by auto
      moreover have "m k = (m0(k0 \<mapsto> x0)) k" using m(2) h by simp
      ultimately show "m k = m0 k" by simp
    qed
    have b: "\<forall>k x. (\<exists>r' \<in> set (r # rs). entry_of r' = Some (k, x))
                    \<longrightarrow> (\<forall>r' \<in> set (r # rs). \<forall>y. entry_of r' = Some (k, y) \<longrightarrow> y = x)
                    \<longrightarrow> m k = Some x"
    proof (intro allI impI)
      fix k x
      assume ex: "\<exists>r' \<in> set (r # rs). entry_of r' = Some (k, x)"
        and all: "\<forall>r' \<in> set (r # rs). \<forall>y. entry_of r' = Some (k, y) \<longrightarrow> y = x"
      show "m k = Some x"
      proof (cases "\<exists>r' \<in> set rs. \<exists>y. entry_of r' = Some (k, y)")
        case True
        then obtain r' y where r': "r' \<in> set rs" "entry_of r' = Some (k, y)" by blast
        then have "y = x" using all by simp
        then have "\<exists>r \<in> set rs. entry_of r = Some (k, x)" using r' by blast
        moreover have "\<forall>r \<in> set rs. \<forall>y. entry_of r = Some (k, y) \<longrightarrow> y = x" using all by simp
        ultimately show ?thesis using m(3) by blast
      next
        case False
        then have "entry_of r = Some (k, x)" using ex by auto
        then have kx: "k0 = k" "x0 = x" using Some e by simp_all
        have "\<forall>r \<in> set rs. \<forall>e. entry_of r = Some e \<longrightarrow> fst e \<noteq> k"
          using False by (metis prod.collapse)
        then have "m k = (m0(k0 \<mapsto> x0)) k" using m(2) by blast
        then show ?thesis using kx by simp
      qed
    qed
    show ?thesis unfolding step using m(1) a b by blast
  qed
qed

section \<open>Package-name splitting\<close>

lemma split_str_append:
  "sep \<notin> set p \<Longrightarrow> split_str sep (p @ sep # r) = p # split_str sep r"
  by (induction p) auto

lemma split_str_nonempty: "split_str sep s \<noteq> []"
  by (induction s) (auto split: list.splits)

text \<open>
  C7. A scoped name \<^verbatim>\<open>@scope/pkg@version\<close> yields \<^verbatim>\<open>@scope/pkg\<close>, and an unscoped
  \<^verbatim>\<open>pkg@version\<close> yields \<^verbatim>\<open>pkg\<close>, whatever the version token is; the version is not
  produced here but looked up in the version map under the whole string.
\<close>

theorem get_name_scoped_and_plain:
  assumes "CHR ''@'' \<notin> set scoped" and "CHR ''@'' \<notin> set pkg" and "pkg \<noteq> []"
  shows "get_name (''@'' @ scoped @ ''@'' @ ver) = Inr (''@'' @ scoped)
       \<and> get_name (pkg @ ''@'' @ ver) = Inr pkg"
proof
  have "split_str CHR ''@'' (''@'' @ scoped @ ''@'' @ ver)
        = [] # scoped # split_str CHR ''@'' ver"
    using assms(1) split_str_append [of "CHR ''@''" scoped ver] by simp
  moreover obtain w ws where "split_str CHR ''@'' ver = w # ws"
    using split_str_nonempty [of "CHR ''@''" ver] by (cases "split_str CHR ''@'' ver") auto
  ultimately show "get_name (''@'' @ scoped @ ''@'' @ ver) = Inr (''@'' @ scoped)"
    by (simp add: get_name_def startswith_def)
next
  obtain w ws where "split_str CHR ''@'' ver = w # ws"
    using split_str_nonempty [of "CHR ''@''" ver] by (cases "split_str CHR ''@'' ver") auto
  moreover have "split_str CHR ''@'' (pkg @ ''@'' @ ver) = pkg # split_str CHR ''@'' ver"
    using assms(2) split_str_append [of "CHR ''@''" pkg ver] by simp
  moreover have "\<not> startswith (pkg @ ''@'' @ ver) ''@''"
    using assms(2,3) by (cases pkg) (auto simp: startswith_def)
  ultimately show "get_name (pkg @ ''@'' @ ver) = Inr pkg"
    by (simp add: get_name_def)
qed

theorem get_name_scoped_and_plain_witness:
  "CHR ''@'' \<notin> set ''scope/pkg'' \<and> CHR ''@'' \<notin> set ''pkg'' \<and> ''pkg'' \<noteq> []
   \<and> get_name ''@scope/pkg@1.2.3'' = Inr ''@scope/pkg''
   \<and> get_name ''pkg@1.2.3'' = Inr ''pkg''"
  using get_name_scoped_and_plain [of "''scope/pkg''" "''pkg''" "''1.2.3''"] by simp

section \<open>Acyclicity of the reconciled tree\<close>

text \<open>
  C2, as amended. In every tree returned by \<open>get_dependency_tree\<close>, a node that has
  children has a name different from the name of each of its strict ancestors above its
  immediate parent, the root excluded. (A node whose name repeats such an ancestor is
  in the tree, without children.)
\<close>

theorem expanded_nodes_avoid_guarded_ancestors:
  assumes "get_dependency_tree flat_tree package_json package_map = Inr t"
  shows "expanded_names_guarded t"
proof -
  let ?root = "ANode (case pj_name package_json of
                        Absent \<Rightarrow> Some ''package.json''
                      | Null \<Rightarrow> None
                      | Present n \<Rightarrow> Some n)
                     (pj_version package_json) flat_tree None"
  from assms obtain nodes where
    loop: "top_level_loop (case pj_dependencies package_json of Present ds \<Rightarrow> ds | _ \<Rightarrow> [])
             ?root flat_tree package_map = Inr nodes"
    and t: "t = DNode (aname ?root) (aversion ?root) nodes"
    by (auto simp: get_dependency_tree_def Let_def split: sum.splits field.splits)
  from top_level_loop_guard_ok [OF loop] show ?thesis
    by (simp add: expanded_names_guarded_def t)
qed

theorem expanded_nodes_avoid_guarded_ancestors_witness:
  "get_dependency_tree cyc_flat cyc_pkg cyc_map = Inr cyc_tree \<and> expanded_names_guarded cyc_tree"
  using expanded_nodes_avoid_guarded_ancestors [of cyc_flat cyc_pkg cyc_map cyc_tree]
  by (simp add: cyc_run)

text \<open>
  C2 as stated fails: in the tree of the project below, the leaf named x has the strict
  ancestor named x, which is not the root.
\<close>

theorem acyclic_names_counterexample:
  "get_dependency_tree cyc_flat cyc_pkg cyc_map = Inr cyc_tree \<and> \<not> acyclic_names cyc_tree"
  by code_simp

section \<open>Termination of the reconciliation\<close>

text \<open>
  C3. \<open>add_nested_dependencies\<close> is a total function (its recursion is well-founded, see
  the termination proof above), and the recursion depth is bounded by the input: the
  tree returned by \<open>get_dependency_tree\<close> is at most \<open>2 * N + 7\<close> levels high, where
  \<open>N\<close> is the number of distinct package names in the flat tree. A node met again
  under an ancestor of the same name (above its immediate parent, below the root) is
  kept in the tree as a childless leaf and is not expanded again.
\<close>

theorem reconciliation_bounded_and_leaf_retained:
  "(\<forall>t. get_dependency_tree flat_tree package_json package_map = Inr t \<longrightarrow>
        height t \<le> 2 * card (record_names flat_tree) + 7)
   \<and> (\<forall>node. get_node_from_dependency d parent = Some node \<longrightarrow>
          aname node \<in> set (guard_names parent) \<longrightarrow>
          add_dependency d parent = [DNode (aname node) (aversion node) []])"
proof (intro conjI allI impI)
  fix t
  assume run: "get_dependency_tree flat_tree package_json package_map = Inr t"
  let ?root = "ANode (case pj_name package_json of
                        Absent \<Rightarrow> Some ''package.json''
                      | Null \<Rightarrow> None
                      | Present n \<Rightarrow> Some n)
                     (pj_version package_json) flat_tree None"
  from run obtain nodes where
    loop: "top_level_loop (case pj_dependencies package_json of Present ds \<Rightarrow> ds | _ \<Rightarrow> [])
             ?root flat_tree package_map = Inr nodes"
    and t: "t = DNode (aname ?root) (aversion ?root) nodes"
    by (auto simp: get_dependency_tree_def Let_def split: sum.splits field.splits)
  have "\<forall>c \<in> set nodes. height c \<le> 2 * card (record_names flat_tree) + 6"
    using top_level_loop_height [OF loop] by simp
  then have "height (DNode (aname ?root) (aversion ?root) nodes)
             \<le> Suc (2 * card (record_names flat_tree) + 6)"
    by (simp only: height_le)
  then show "height t \<le> 2 * card (record_names flat_tree) + 7"
    using t by simp
next
  fix node
  assume "get_node_from_dependency d parent = Some node"
    "aname node \<in> set (guard_names parent)"
  then show "add_dependency d parent = [DNode (aname node) (aversion node) []]"
    by (simp add: add_dependency_char)
qed

theorem reconciliation_bounded_and_leaf_retained_witness:
  "get_dependency_tree cyc_flat cyc_pkg cyc_map = Inr cyc_tree
   \<and> height cyc_tree \<le> 2 * card (record_names cyc_flat) + 7
   \<and> get_node_from_dependency cyc_x_again cyc_y_node
       = Some (ANode (Some ''x'') (Some ''1.0.0'') [] (Some cyc_y_node))
   \<and> Some ''x'' \<in> set (guard_names cyc_y_node)
   \<and> add_dependency cyc_x_again cyc_y_node = [DNode (Some ''x'') (Some ''1.0.0'') []]"
proof -
  have node: "get_node_from_dependency cyc_x_again cyc_y_node
              = Some (ANode (Some ''x'') (Some ''1.0.0'') [] (Some cyc_y_node))"
    by (simp add: get_node_from_dependency_def cyc_x_again_def falsy_def py_str_def)
  have guard: "Some ''x'' \<in> set (guard_names cyc_y_node)"
    by (simp add: guard_names_def chain_names_def cyc_y_node_def cyc_x_node_def cyc_root_def)
  show ?thesis
    using reconciliation_bounded_and_leaf_retained
            [of cyc_flat cyc_pkg cyc_map cyc_x_again cyc_y_node] cyc_run node guard
    by simp
qed

section \<open>Adoption of the authoritative child-set\<close>

text \<open>
  C1 as stated fails. In the project above the second x has the authoritative record of
  x at the root, whose child-set holds y, yet the node has no children (the cycle guard
  stopped it); and y, which is expanded, has the single child x although its
  authoritative child-set also holds w, an entry without a version.
\<close>

theorem children_match_counterexample:
  "get_dependency_tree cyc_flat cyc_pkg cyc_map = Inr cyc_tree
   \<and> authoritative cyc_y_node ''x@1.0.0'' = Some cyc_x_record
   \<and> add_dependency cyc_x_again cyc_y_node = [DNode (Some ''x'') (Some ''1.0.0'') []]
   \<and> \<not> children_match (DNode (Some ''x'') (Some ''1.0.0'') []) cyc_x_record
   \<and> authoritative cyc_x_node ''y@1.0.0'' = Some cyc_y_record
   \<and> add_dependency cyc_y_entry cyc_x_node
       = [DNode (Some ''y'') (Some ''1.0.0'') [DNode (Some ''x'') (Some ''1.0.0'') []]]
   \<and> \<not> children_match (DNode (Some ''y'') (Some ''1.0.0'') [DNode (Some ''x'') (Some ''1.0.0'') []])
                        cyc_y_record"
  by code_simp

text \<open>
  C1, as amended. For every node built by \<open>add_nested_dependencies\<close> the authoritative
  record is the one found by searching the ancestor chain from the immediate parent
  outward to the root for an entry at the node's key with a non-empty child-set, the
  closest one winning. Without such a record the node has no children; so has a node
  whose name is the name of an ancestor above its immediate parent and below the root.
  A node whose name is the name of none of its ancestors below the root adopts the
  record's child-set and its children are, in order, exactly the entries of that
  child-set that have a usable name and version.
\<close>

theorem node_adopts_closest_full_record:
  assumes "get_node_from_dependency d parent = Some node"
  shows "\<exists>cs. add_dependency d parent = [DNode (aname node) (aversion node) cs]
          \<and> (case authoritative parent (dep_key node) of
                None \<Rightarrow> cs = []
              | Some dp \<Rightarrow>
                  (aname node \<in> set (guard_names parent) \<longrightarrow> cs = [])
                  \<and> (aname node \<notin> set (butlast (chain_names parent)) \<longrightarrow>
                       cs = add_nested_dependencies dp (set_deps node (fdeps dp))
                       \<and> node_keys cs = usable_entries dp))"
proof -
  have sub: "set (guard_names parent) \<subseteq> set (butlast (chain_names parent))"
    by (metis guard_names_tl_butlast list.set_sel(2) subsetI tl_Nil)
  show ?thesis
  proof (cases "authoritative parent (dep_key node)")
    case None
    then show ?thesis using assms by (simp add: add_dependency_char)
  next
    case (Some dp)
    then show ?thesis
      using assms sub node_keys_add_nested_dependencies [of dp "set_deps node (fdeps dp)"]
      by (auto simp add: add_dependency_char simp del: add_nested_dependencies.simps)
  qed
qed

theorem node_adopts_closest_full_record_witness:
  "get_node_from_dependency cyc_y_entry cyc_x_node
     = Some (ANode (Some ''y'') (Some ''1.0.0'') [] (Some cyc_x_node))
   \<and> authoritative cyc_x_node ''y@1.0.0'' = Some cyc_y_record
   \<and> Some ''y'' \<notin> set (butlast (chain_names cyc_x_node))
   \<and> usable_entries cyc_y_record = [(Some ''x'', Some ''1.0.0'')]
   \<and> (\<exists>cs. add_dependency cyc_y_entry cyc_x_node = [DNode (Some ''y'') (Some ''1.0.0'') cs]
          \<and> node_keys cs = [(Some ''x'', Some ''1.0.0'')])
   \<and> get_node_from_dependency cyc_x_again cyc_y_node
       = Some (ANode (Some ''x'') (Some ''1.0.0'') [] (Some cyc_y_node))
   \<and> authoritative cyc_y_node ''x@1.0.0'' = Some cyc_x_record
   \<and> Some ''x'' \<in> set (guard_names cyc_y_node)
   \<and> (\<exists>cs. add_dependency cyc_x_again cyc_y_node = [DNode (Some ''x'') (Some ''1.0.0'') cs]
          \<and> cs = [])"
proof -
  have node': "get_node_from_dependency cyc_x_again cyc_y_node
       = Some (ANode (Some ''x'') (Some ''1.0.0'') [] (Some cyc_y_node))"
    by code_simp
  have auth': "authoritative cyc_y_node ''x@1.0.0'' = Some cyc_x_record"
    by code_simp
  have guard': "Some ''x'' \<in> set (guard_names cyc_y_node)"
    by code_simp
  have key': "dep_key (ANode (Some ''x'') (Some ''1.0.0'') [] (Some cyc_y_node)) = ''x@1.0.0''"
    by code_simp
  have node: "get_node_from_dependency cyc_y_entry cyc_x_node
     = Some (ANode (Some ''y'') (Some ''1.0.0'') [] (Some cyc_x_node))"
    by code_simp
  have auth: "authoritative cyc_x_node ''y@1.0.0'' = Some cyc_y_record"
    by code_simp
  have free: "Some ''y'' \<notin> set (butlast (chain_names cyc_x_node))"
    by code_simp
  have entries: "usable_entries cyc_y_record = [(Some ''x'', Some ''1.0.0'')]"
    by code_simp
  have key: "dep_key (ANode (Some ''y'') (Some ''1.0.0'') [] (Some cyc_x_node)) = ''y@1.0.0''"
    by code_simp
  show ?thesis
    using node_adopts_closest_full_record [OF node] node auth free entries key
          node_adopts_closest_full_record [OF node'] node' auth' guard' key'
    by auto
qed

section \<open>Records without a usable name or version\<close>

text \<open>
  C8 as stated fails. In the project below the records of \<^verbatim>\<open>a@1.2.0\<close> and of
  \<^verbatim>\<open>b@2.0.0\<close> have no version. The first is the record of a declared dependency: its
  node is built from the manifest entry and is in the tree, with the version \<^verbatim>\<open>None\<close>.
  The second is found by its key as the authoritative record of the node b at 2.0.0,
  so that its branch, c, is in the tree.
\<close>

theorem unusable_record_counterexample:
  "get_flat_tree (Some ranged_listing) ranged_map = Inr ranged_flat
   \<and> map_of ranged_flat ''a@1.2.0'' = Some ranged_a_record
   \<and> falsy (fversion ranged_a_record)
   \<and> map_of ranged_flat ''b@2.0.0'' = Some ranged_b_record
   \<and> falsy (fversion ranged_b_record)
   \<and> authoritative ranged_a_node ''b@2.0.0'' = Some ranged_b_record
   \<and> get_dependency_tree ranged_flat ranged_pkg ranged_map
       = Inr (DNode (Some ''proj'') (Some ''0.1.0'')
                [DNode (Some ''a'') None
                   [DNode (Some ''b'') (Some ''2.0.0'')
                      [DNode (Some ''c'') (Some ''3.0.0'') []]]])"
  by code_simp

text \<open>
  C8, as amended. A record iterated by \<open>add_nested_dependencies\<close> (a record below the
  top level) whose name or version is missing or empty yields no node and no error:
  under the same parent, the nodes attached are those of the same record list without
  that entry. The record stays in the recorded child-sets, and the search for an
  authoritative record reads neither name nor version: a record with a non-empty
  child-set is found by its key all the same.
\<close>

theorem unusable_nested_record_emits_no_node:
  assumes "falsy (fname d) \<or> falsy (fversion d)"
  shows "get_node_from_dependency d parent = None
       \<and> add_dependency d parent = []
       \<and> add_nested_dependencies (Flat n v (before @ (k, d) # after)) parent
           = add_nested_dependencies (Flat n v (before @ after)) parent
       \<and> find_full_dependency [(k, d)] k = (if fdeps d = [] then None else Some d)"
proof -
  have none: "get_node_from_dependency d parent = None"
    using assms by (auto simp: get_node_from_dependency_def Let_def)
  then have "add_dependency d parent = []" by (simp add: add_dependency_char)
  with none show ?thesis by (simp add: find_full_dependency_def)
qed

theorem unusable_nested_record_emits_no_node_witness:
  "(falsy (fname ranged_b_record) \<or> falsy (fversion ranged_b_record))
   \<and> get_node_from_dependency ranged_b_record ranged_a_node = None
   \<and> add_dependency ranged_b_record ranged_a_node = []
   \<and> add_nested_dependencies
         (Flat (Some ''a'') None
            ([(''b@^2.0.0'', Flat (Some ''b'') (Some ''2.0.0'') [])]
             @ (''b@2.0.0'', ranged_b_record) # [])) ranged_a_node
       = add_nested_dependencies
         (Flat (Some ''a'') None
            ([(''b@^2.0.0'', Flat (Some ''b'') (Some ''2.0.0'') [])] @ [])) ranged_a_node
   \<and> find_full_dependency [(''b@2.0.0'', ranged_b_record)] ''b@2.0.0'' = Some ranged_b_record"
proof -
  have h: "falsy (fname ranged_b_record) \<or> falsy (fversion ranged_b_record)"
    by (simp add: ranged_b_record_def falsy_def)
  have full: "fdeps ranged_b_record \<noteq> []"
    by (simp add: ranged_b_record_def)
  show ?thesis
    using unusable_nested_record_emits_no_node
            [OF h, of ranged_a_node "Some ''a''" None
               "[(''b@^2.0.0'', Flat (Some ''b'') (Some ''2.0.0'') [])]" "''b@2.0.0''" "[]"]
          h full
    by simp
qed

section \<open>Occurrences of one key in unrelated subtrees\<close>

text \<open>
  C9 as stated fails. Below, z at 4.0.0 occurs under a and under b. Under a the closest
  full record is the one in a's own child-set and z gets the child q; under b no
  ancestor has a full record and z stays without children.
\<close>

theorem same_key_different_children_counterexample:
  "get_dependency_tree dup_flat dup_pkg dup_map
     = Inr (DNode (Some ''proj'') (Some ''0.1.0'')
              [DNode (Some ''a'') (Some ''1.0.0'')
                 [DNode (Some ''z'') (Some ''4.0.0'') [DNode (Some ''q'') (Some ''1.0.0'') []]],
               DNode (Some ''b'') (Some ''1.0.0'') [DNode (Some ''z'') (Some ''4.0.0'') []]])
   \<and> authoritative dup_a_node ''z@4.0.0'' = Some z_full
   \<and> authoritative dup_b_node ''z@4.0.0'' = None"
  by code_simp

text \<open>
  C9, as amended. Each occurrence is reconciled from its own record and its own
  ancestor chain only. Two occurrences of one key, neither named like one of its
  non-root ancestors, get children with the same names and versions whenever the
  closest full record found on the two chains is the same; this is so, in particular,
  when neither chain has a full record for the key below the root and both chains end
  in a root with the same flat tree.
\<close>

theorem same_record_same_children:
  assumes "get_node_from_dependency d1 p1 = Some n1"
    and "get_node_from_dependency d2 p2 = Some n2"
    and "dep_key n1 = key" and "dep_key n2 = key"
    and "aname n1 \<notin> set (butlast (chain_names p1))"
    and "aname n2 \<notin> set (butlast (chain_names p2))"
  shows "(authoritative p1 key = authoritative p2 key \<longrightarrow>
            node_keys (concat (map dchildren (add_dependency d1 p1)))
            = node_keys (concat (map dchildren (add_dependency d2 p2))))
       \<and> (first_full (butlast (ancestors p1)) key = None \<longrightarrow>
          first_full (butlast (ancestors p2)) key = None \<longrightarrow>
          adeps (last (ancestors p1)) = adeps (last (ancestors p2)) \<longrightarrow>
            authoritative p1 key = authoritative p2 key)"
proof (intro conjI impI)
  assume same: "authoritative p1 key = authoritative p2 key"
  have g1: "aname n1 \<notin> set (guard_names p1)"
    using assms(5) by (metis guard_names_tl_butlast list.set_sel(2) tl_Nil)
  have g2: "aname n2 \<notin> set (guard_names p2)"
    using assms(6) by (metis guard_names_tl_butlast list.set_sel(2) tl_Nil)
  show "node_keys (concat (map dchildren (add_dependency d1 p1)))
        = node_keys (concat (map dchildren (add_dependency d2 p2)))"
  proof (cases "authoritative p2 key")
    case None
    then show ?thesis
      using assms same g1 g2 by (simp add: add_dependency_char)
  next
    case (Some dp)
    then show ?thesis
      using assms(1-4) same g1 g2
            node_keys_add_nested_dependencies [of dp "set_deps n1 (fdeps dp)"]
            node_keys_add_nested_dependencies [of dp "set_deps n2 (fdeps dp)"]
      by (simp add: add_dependency_char del: add_nested_dependencies.simps)
  qed
next
  assume "first_full (butlast (ancestors p1)) key = None"
    "first_full (butlast (ancestors p2)) key = None"
    "adeps (last (ancestors p1)) = adeps (last (ancestors p2))"
  then show "authoritative p1 key = authoritative p2 key"
    by (simp add: authoritative_def first_full_ancestors [of p1 key]
                  first_full_ancestors [of p2 key])
qed

theorem same_record_same_children_witness:
  "get_node_from_dependency z_entry hoist_a_node
     = Some (ANode (Some ''z'') (Some ''4.0.0'') [] (Some hoist_a_node))
   \<and> get_node_from_dependency z_entry hoist_b_node
     = Some (ANode (Some ''z'') (Some ''4.0.0'') [] (Some hoist_b_node))
   \<and> Some ''z'' \<notin> set (butlast (chain_names hoist_a_node))
   \<and> Some ''z'' \<notin> set (butlast (chain_names hoist_b_node))
   \<and> first_full (butlast (ancestors hoist_a_node)) ''z@4.0.0'' = None
   \<and> first_full (butlast (ancestors hoist_b_node)) ''z@4.0.0'' = None
   \<and> adeps (last (ancestors hoist_a_node)) = adeps (last (ancestors hoist_b_node))
   \<and> authoritative hoist_a_node ''z@4.0.0'' = authoritative hoist_b_node ''z@4.0.0''
   \<and> node_keys (concat (map dchildren (add_dependency z_entry hoist_a_node)))
       = node_keys (concat (map dchildren (add_dependency z_entry hoist_b_node)))
   \<and> node_keys (concat (map dchildren (add_dependency z_entry hoist_a_node)))
       = [(Some ''q'', Some ''1.0.0'')]"
proof -
  have n1: "get_node_from_dependency z_entry hoist_a_node
     = Some (ANode (Some ''z'') (Some ''4.0.0'') [] (Some hoist_a_node))" by code_simp
  have n2: "get_node_from_dependency z_entry hoist_b_node
     = Some (ANode (Some ''z'') (Some ''4.0.0'') [] (Some hoist_b_node))" by code_simp
  have k1: "dep_key (ANode (Some ''z'') (Some ''4.0.0'') [] (Some hoist_a_node)) = ''z@4.0.0''"
    by code_simp
  have k2: "dep_key (ANode (Some ''z'') (Some ''4.0.0'') [] (Some hoist_b_node)) = ''z@4.0.0''"
    by code_simp
  have f1: "aname (ANode (Some ''z'') (Some ''4.0.0'') [] (Some hoist_a_node))
            \<notin> set (butlast (chain_names hoist_a_node))" by code_simp
  have f2: "aname (ANode (Some ''z'') (Some ''4.0.0'') [] (Some hoist_b_node))
            \<notin> set (butlast (chain_names hoist_b_node))" by code_simp
  have b1: "first_full (butlast (ancestors hoist_a_node)) ''z@4.0.0'' = None" by code_simp
  have b2: "first_full (butlast (ancestors hoist_b_node)) ''z@4.0.0'' = None" by code_simp
  have r: "adeps (last (ancestors hoist_a_node)) = adeps (last (ancestors hoist_b_node))"
    by code_simp
  have q: "node_keys (concat (map dchildren (add_dependency z_entry hoist_a_node)))
       = [(Some ''q'', Some ''1.0.0'')]" by code_simp
  show ?thesis
    using same_record_same_children [OF n1 n2 k1 k2 f1 f2] n1 n2 f1 f2 b1 b2 r q
    by simp
qed

section \<open>A declared dependency without a resolution\<close>

text \<open>
  C4. The manifest declares a at \<^verbatim>\<open>^1.0.0\<close>, the version map has no entry for
  \<^verbatim>\<open>a@^1.0.0\<close>: the lookup of \<^verbatim>\<open>a@None\<close> in the flat tree gives \<^verbatim>\<open>None\<close> and the
  reconciler raises on it instead of producing a node.
\<close>

theorem unresolved_top_level_raises:
  "pm_get Map.empty ''a@^1.0.0'' = None
   \<and> get_dependency_tree unresolved_flat unresolved_pkg Map.empty = Inl AttributeError"
  by code_simp

section \<open>Lock entries without a version\<close>

text \<open>
  C5 as stated fails: the key of an entry without a version is in the returned map,
  with the value \<^verbatim>\<open>None\<close>.
\<close>

theorem entry_without_version_counterexample:
  "\<not> isl (parse_yarn_lock lock_example)
   \<and> projr (parse_yarn_lock lock_example) ''b@^2.0.0'' = Some None
   \<and> ''b@^2.0.0'' \<in> dom (projr (parse_yarn_lock lock_example))"
  by (simp add: parse_yarn_lock_def lock_example_def)

text \<open>
  C5, as amended. An entry of the lock data without a version raises no error and is
  kept: its key is in the returned map with the value \<^verbatim>\<open>None\<close>, and reading the key
  with \<^verbatim>\<open>.get\<close> gives \<^verbatim>\<open>None\<close>.
\<close>

theorem entry_without_version_maps_to_none:
  assumes "distinct (map fst entries)" and "(key, entry) \<in> set entries"
    and "lversion entry = None"
  shows "\<exists>package_map. parse_yarn_lock (Present entries) = Inr package_map
          \<and> package_map key = Some None
          \<and> pm_get package_map key = None"
proof -
  have "distinct (map fst (rev entries))" using assms(1) by (simp add: rev_map [symmetric])
  moreover have "(key, entry) \<in> set (rev entries)" using assms(2) by simp
  ultimately have "map_of (rev entries) key = Some entry" by (rule map_of_is_SomeI)
  then show ?thesis
    using assms(3) by (simp add: parse_yarn_lock_def parse_yarn_lock_fold pm_get_def)
qed

theorem entry_without_version_maps_to_none_witness:
  "distinct (map fst [(''a@^1.0.0'', LockEntry (Some ''1.2.0'')), (''b@^2.0.0'', LockEntry None)])
   \<and> lversion (LockEntry None) = None
   \<and> (\<exists>package_map. parse_yarn_lock lock_example = Inr package_map
          \<and> package_map ''b@^2.0.0'' = Some None
          \<and> pm_get package_map ''b@^2.0.0'' = None)"
proof -
  let ?entries = "[(''a@^1.0.0'', LockEntry (Some ''1.2.0'')), (''b@^2.0.0'', LockEntry None)]"
  have d: "distinct (map fst ?entries)" by simp
  have m: "(''b@^2.0.0'', LockEntry None) \<in> set ?entries" by simp
  have v: "lversion (LockEntry None) = None" by simp
  have e: "lock_example = Present ?entries" by (simp add: lock_example_def)
  show ?thesis
    using entry_without_version_maps_to_none [OF d m v] d v
    unfolding e by blast
qed

section \<open>The yarn runner's license map\<close>

text \<open>
  C10. Whenever \<open>check\<close> returns, the license map it returns is empty and the license
  of every node of the returned tree, the root included, is \<^verbatim>\<open>None\<close>.
\<close>

theorem check_license_map_empty:
  assumes "check package_json lock_json list_json = Inr (t, license_map)"
  shows "license_map = Map.empty \<and> set (licenses t) \<subseteq> {None}"
proof -
  let ?trees = "case list_json of
                  Null \<Rightarrow> Inl AttributeError
                | Absent \<Rightarrow> Inr (Some [])
                | Present data \<Rightarrow>
                    Inr (case data of Absent \<Rightarrow> Some [] | Null \<Rightarrow> None | Present ts \<Rightarrow> Some ts)"
  obtain package_map where pm: "parse_yarn_lock lock_json = Inr package_map"
    using assms by (cases "parse_yarn_lock lock_json") (simp_all add: check_def)
  obtain trees where tr: "?trees = Inr trees"
    using assms pm by (cases ?trees) (simp_all add: check_def)
  obtain flat_tree where ft: "get_flat_tree trees package_map = Inr flat_tree"
    using assms pm tr
    by (cases "get_flat_tree trees package_map") (simp_all add: check_def)
  obtain dep_tree where dt: "get_dependency_tree flat_tree package_json package_map = Inr dep_tree"
    using assms pm tr ft
    by (cases "get_dependency_tree flat_tree package_json package_map")
       (simp_all add: check_def)
  have "check package_json lock_json list_json = Inr (annotate Map.empty dep_tree, Map.empty)"
    using pm tr ft dt by (simp add: check_def Let_def)
  with assms have "(t, license_map) = (annotate Map.empty dep_tree, Map.empty)"
    by (simp only: sum.inject)
  then have t: "t = annotate Map.empty dep_tree" and m: "license_map = Map.empty"
    by (simp_all only: prod.inject)
  show ?thesis
    using m licenses_annotate_empty [of _ dep_tree] unfolding t by blast
qed

theorem check_license_map_empty_witness:
  "check pinned_pkg pinned_lock pinned_list
     = Inr (LNode (Some ''proj'') (Some ''0.1.0'') None [LNode (Some ''a'') (Some ''1.2.0'') None []],
            Map.empty)
   \<and> set (licenses (LNode (Some ''proj'') (Some ''0.1.0'') None
                          [LNode (Some ''a'') (Some ''1.2.0'') None []])) \<subseteq> {None}"
proof -
  have run: "check pinned_pkg pinned_lock pinned_list
     = Inr (LNode (Some ''proj'') (Some ''0.1.0'') None [LNode (Some ''a'') (Some ''1.2.0'') None []],
            Map.empty)"
    by (simp add: check_def pinned_pkg_def pinned_lock_def pinned_list_def parse_yarn_lock_def
          get_flat_tree_def get_name_def startswith_def pm_get_def get_dependency_tree_def
          py_str_def add_dependency_char get_node_from_dependency_def falsy_def Let_def)
  show ?thesis
    using check_license_map_empty [OF run] run by simp
qed

section \<open>The license map of the fetch aggregator\<close>

text \<open>
  C6 as stated fails: a registry document whose license field is null puts the queried
  key in the map with the value \<^verbatim>\<open>None\<close>, which is neither a string nor an omission.
\<close>

theorem null_license_counterexample:
  "\<not> isl (fetch_licenses null_license_registry (\<lambda>tasks. tasks) [(''requests'', ''2.0'')])
   \<and> projr (fetch_licenses null_license_registry (\<lambda>tasks. tasks) [(''requests'', ''2.0'')])
        ''requests@2.0'' = Some None"
  by (simp add: fetch_licenses_def null_license_registry_def py_str_def)

text \<open>
  C6, as amended. Let the queried pairs have pairwise different keys \<^verbatim>\<open>name@version\<close>,
  let the requests complete in any order, and let every response be either a body that
  fails to decode or a JSON object whose info carries the queried name and version.
  Then the batch completes; a pair whose body failed to decode has no key in the map;
  and every other pair has exactly the key \<^verbatim>\<open>name@version\<close>, mapped to the license
  field as the registry returned it (a string, or \<^verbatim>\<open>None\<close> for a null), or to
  \<^verbatim>\<open>Unknown\<close> when the field is absent.
\<close>

theorem fetch_licenses_per_pair:
  assumes order: "mset (as_completed (map fetch (map pypi_url deps)))
                  = mset (map fetch (map pypi_url deps))"
    and keys: "inj_on pair_key (set deps)"
    and echo: "\<forall>p \<in> set deps. fetch (pypi_url p) = Body None
                 \<or> (\<exists>l. fetch (pypi_url p)
                          = Body (Some (Page (Some (Info (Some (fst p)) (Some (snd p)) l)))))"
  shows "\<exists>m. fetch_licenses fetch as_completed deps = Inr m
          \<and> (\<forall>p \<in> set deps.
                (fetch (pypi_url p) = Body None \<longrightarrow> m (pair_key p) = None)
                \<and> (\<forall>l. fetch (pypi_url p)
                          = Body (Some (Page (Some (Info (Some (fst p)) (Some (snd p)) l))))
                       \<longrightarrow> m (pair_key p)
                           = Some (case l of None \<Rightarrow> Some ''Unknown'' | Some x \<Rightarrow> x)))"
proof -
  let ?tasks = "map fetch (map pypi_url deps)"
  let ?rs = "as_completed ?tasks"
  have urls: "(\<lambda>(dependency, version).
                 PYPI_HOST @ ''/'' @ dependency @ ''/'' @ version @ ''/json'') = pypi_url"
    by (auto simp: pypi_url_def fun_eq_iff)
  have run: "fetch_licenses fetch as_completed deps = fetch_concurrent ?rs Map.empty"
    unfolding fetch_licenses_def Let_def urls ..
  have set_rs: "set ?rs = (\<lambda>p. fetch (pypi_url p)) ` set deps"
    using mset_eq_setD [OF order] by auto
  have entry: "\<And>p. p \<in> set deps \<Longrightarrow>
      entry_of (fetch (pypi_url p)) = None \<and> fetch (pypi_url p) = Body None
      \<or> (\<exists>l. fetch (pypi_url p) = Body (Some (Page (Some (Info (Some (fst p)) (Some (snd p)) l))))
            \<and> entry_of (fetch (pypi_url p))
                = Some (pair_key p, (case l of None \<Rightarrow> Some ''Unknown'' | Some x \<Rightarrow> x)))"
    using echo by (auto simp: pair_key_def py_str_def)
  have ok: "\<forall>r \<in> set ?rs. \<not> raises r"
    unfolding set_rs using echo by auto
  obtain m where m: "fetch_concurrent ?rs Map.empty = Inr m"
    and absent: "\<And>k. (\<forall>r \<in> set ?rs. \<forall>e. entry_of r = Some e \<longrightarrow> fst e \<noteq> k) \<Longrightarrow> m k = None"
    and present: "\<And>k x. (\<exists>r \<in> set ?rs. entry_of r = Some (k, x))
                    \<Longrightarrow> (\<forall>r \<in> set ?rs. \<forall>y. entry_of r = Some (k, y) \<longrightarrow> y = x)
                    \<Longrightarrow> m k = Some x"
    using fetch_concurrent_lookup [OF ok, of Map.empty] by auto
  have own: "\<And>p q y. p \<in> set deps \<Longrightarrow> q \<in> set deps \<Longrightarrow>
               entry_of (fetch (pypi_url q)) = Some (pair_key p, y) \<Longrightarrow> q = p"
  proof -
    fix p q y
    assume p: "p \<in> set deps" and q: "q \<in> set deps"
      and e: "entry_of (fetch (pypi_url q)) = Some (pair_key p, y)"
    have "pair_key q = pair_key p" using entry [OF q] e by auto
    then show "q = p" using keys p q by (simp add: inj_on_def)
  qed
  have "\<forall>p \<in> set deps.
          (fetch (pypi_url p) = Body None \<longrightarrow> m (pair_key p) = None)
          \<and> (\<forall>l. fetch (pypi_url p)
                    = Body (Some (Page (Some (Info (Some (fst p)) (Some (snd p)) l))))
                 \<longrightarrow> m (pair_key p)
                     = Some (case l of None \<Rightarrow> Some ''Unknown'' | Some x \<Rightarrow> x))"
  proof (intro ballI conjI allI impI)
    fix p
    assume p: "p \<in> set deps" and undecodable: "fetch (pypi_url p) = Body None"
    have "\<forall>r \<in> set ?rs. \<forall>e. entry_of r = Some e \<longrightarrow> fst e \<noteq> pair_key p"
    proof (intro ballI allI impI)
      fix r e
      assume "r \<in> set ?rs" and e: "entry_of r = Some e"
      then obtain q where q: "q \<in> set deps" "r = fetch (pypi_url q)"
        unfolding set_rs by blast
      show "fst e \<noteq> pair_key p"
      proof
        assume "fst e = pair_key p"
        then have "entry_of (fetch (pypi_url q)) = Some (pair_key p, snd e)"
          using e q(2) by (metis prod.collapse)
        from own [OF p q(1) this] have "q = p" .
        then show False using e q(2) undecodable by simp
      qed
    qed
    then show "m (pair_key p) = None" by (rule absent)
  next
    fix p l
    assume p: "p \<in> set deps"
      and decoded: "fetch (pypi_url p)
                    = Body (Some (Page (Some (Info (Some (fst p)) (Some (snd p)) l))))"
    let ?x = "case l of None \<Rightarrow> Some ''Unknown'' | Some x \<Rightarrow> x"
    have mine: "entry_of (fetch (pypi_url p)) = Some (pair_key p, ?x)"
      using decoded by (simp add: pair_key_def py_str_def)
    have "\<exists>r \<in> set ?rs. entry_of r = Some (pair_key p, ?x)"
      unfolding set_rs using p mine by blast
    moreover have "\<forall>r \<in> set ?rs. \<forall>y. entry_of r = Some (pair_key p, y) \<longrightarrow> y = ?x"
    proof (intro ballI allI impI)
      fix r y
      assume "r \<in> set ?rs" and e: "entry_of r = Some (pair_key p, y)"
      then obtain q where q: "q \<in> set deps" "r = fetch (pypi_url q)"
        unfolding set_rs by blast
      have "q = p" using own [OF p q(1)] e q(2) by simp
      then show "y = ?x" using e q(2) mine by simp
    qed
    ultimately show "m (pair_key p) = Some ?x" by (rule present)
  qed
  then show ?thesis using run m by simp
qed

theorem fetch_licenses_per_pair_witness:
  "mset (rev (map partial_registry
                (map pypi_url [(''flask'', ''1.0''), (''six'', ''1.12''), (''broken'', ''0.1'')])))
     = mset (map partial_registry
                (map pypi_url [(''flask'', ''1.0''), (''six'', ''1.12''), (''broken'', ''0.1'')]))
   \<and> inj_on pair_key (set [(''flask'', ''1.0''), (''six'', ''1.12''), (''broken'', ''0.1'')])
   \<and> partial_registry (pypi_url (''broken'', ''0.1'')) = Body None
   \<and> (\<exists>m. fetch_licenses partial_registry rev
                [(''flask'', ''1.0''), (''six'', ''1.12''), (''broken'', ''0.1'')] = Inr m
          \<and> m ''flask@1.0'' = Some (Some ''BSD'')
          \<and> m ''six@1.12'' = Some (Some ''Unknown'')
          \<and> m ''broken@0.1'' = None)"
proof -
  let ?deps = "[(''flask'', ''1.0''), (''six'', ''1.12''), (''broken'', ''0.1'')]"
  have order: "mset (rev (map partial_registry (map pypi_url ?deps)))
               = mset (map partial_registry (map pypi_url ?deps))"
    by (rule mset_rev)
  have keys: "inj_on pair_key (set ?deps)"
    by (simp add: pair_key_def)
  have flask: "partial_registry (pypi_url (''flask'', ''1.0''))
      = Body (Some (Page (Some (Info (Some ''flask'') (Some ''1.0'') (Some (Some ''BSD''))))))"
    by (simp add: partial_registry_def pypi_url_def PYPI_HOST_def)
  have six: "partial_registry (pypi_url (''six'', ''1.12''))
      = Body (Some (Page (Some (Info (Some ''six'') (Some ''1.12'') None))))"
    by (simp add: partial_registry_def pypi_url_def PYPI_HOST_def)
  have broken: "partial_registry (pypi_url (''broken'', ''0.1'')) = Body None"
    by (simp add: partial_registry_def pypi_url_def PYPI_HOST_def)
  have echo: "\<forall>p \<in> set ?deps. partial_registry (pypi_url p) = Body None
                 \<or> (\<exists>l. partial_registry (pypi_url p)
                          = Body (Some (Page (Some (Info (Some (fst p)) (Some (snd p)) l)))))"
    using flask six broken by simp
  obtain m where run: "fetch_licenses partial_registry rev ?deps = Inr m"
    and each: "\<forall>p \<in> set ?deps.
                (partial_registry (pypi_url p) = Body None \<longrightarrow> m (pair_key p) = None)
                \<and> (\<forall>l. partial_registry (pypi_url p)
                          = Body (Some (Page (Some (Info (Some (fst p)) (Some (snd p)) l))))
                       \<longrightarrow> m (pair_key p)
                           = Some (case l of None \<Rightarrow> Some ''Unknown'' | Some x \<Rightarrow> x))"
    using fetch_licenses_per_pair [of rev partial_registry ?deps, OF order keys echo] by blast
  have "m ''flask@1.0'' = Some (Some ''BSD'')"
    using each flask by (simp add: pair_key_def)
  moreover have "m ''six@1.12'' = Some (Some ''Unknown'')"
    using each six by (simp add: pair_key_def)
  moreover have "m ''broken@0.1'' = None"
    using each broken by (simp add: pair_key_def)
  ultimately show ?thesis using order keys broken run by blast
qed

end
